theory Spec2Isabelle
  imports Complex_Main "HOL-Library.Word"
begin

section \<open>Strings: the parts of package strings that load uses\<close>

text \<open>
  A Go string is a sequence of bytes; it is modelled as a \<open>string\<close> (a list of
  \<open>char\<close>, one per byte). \<open>strings.TrimSpace\<close> removes the leading and trailing runes
  for which \<open>unicode.IsSpace\<close> holds. Their UTF-8 encodings are listed in \<open>spaceSeqs\<close>:
  the six ASCII ones, U+0085, U+00A0, U+1680, U+2000 to U+200A, U+2028, U+2029, U+202F,
  U+205F and U+3000.
\<close>

definition spaceSeqs :: "string list" where
  "spaceSeqs =
    [[CHR 0x09], [CHR 0x0A], [CHR 0x0B], [CHR 0x0C], [CHR 0x0D], [CHR 0x20],
     [CHR 0xC2, CHR 0x85], [CHR 0xC2, CHR 0xA0],
     [CHR 0xE1, CHR 0x9A, CHR 0x80],
     [CHR 0xE2, CHR 0x80, CHR 0x80], [CHR 0xE2, CHR 0x80, CHR 0x81],
     [CHR 0xE2, CHR 0x80, CHR 0x82], [CHR 0xE2, CHR 0x80, CHR 0x83],
     [CHR 0xE2, CHR 0x80, CHR 0x84], [CHR 0xE2, CHR 0x80, CHR 0x85],
     [CHR 0xE2, CHR 0x80, CHR 0x86], [CHR 0xE2, CHR 0x80, CHR 0x87],
     [CHR 0xE2, CHR 0x80, CHR 0x88], [CHR 0xE2, CHR 0x80, CHR 0x89],
     [CHR 0xE2, CHR 0x80, CHR 0x8A],
     [CHR 0xE2, CHR 0x80, CHR 0xA8], [CHR 0xE2, CHR 0x80, CHR 0xA9],
     [CHR 0xE2, CHR 0x80, CHR 0xAF], [CHR 0xE2, CHR 0x81, CHR 0x9F],
     [CHR 0xE3, CHR 0x80, CHR 0x80]]"

text \<open>The width in bytes of the space rune that \<open>s\<close> starts with; 0 when there is none.\<close>

definition spaceWidth :: "string list \<Rightarrow> string \<Rightarrow> nat" where
  "spaceWidth seqs s =
     (case List.find (\<lambda>p. take (length p) s = p) seqs of
        None \<Rightarrow> 0
      | Some p \<Rightarrow> length p)"

function TrimLeft :: "string \<Rightarrow> string" where
  "TrimLeft s =
     (if spaceWidth spaceSeqs s = 0 then s else TrimLeft (drop (spaceWidth spaceSeqs s) s))"
  by pat_completeness auto

lemma spaceWidth_pos_nonempty:
  "[] \<notin> set seqs \<Longrightarrow> spaceWidth seqs s \<noteq> 0 \<Longrightarrow> s \<noteq> []"
  by (auto simp: spaceWidth_def find_Some_iff split: option.splits)

lemma Nil_notin_spaceSeqs: "[] \<notin> set spaceSeqs"
  by (simp add: spaceSeqs_def)

termination TrimLeft
proof (relation "measure length")
  show "wf (measure length)" by simp
next
  fix s :: string
  assume a: "spaceWidth spaceSeqs s \<noteq> 0"
  then have "s \<noteq> []"
    using spaceWidth_pos_nonempty [OF Nil_notin_spaceSeqs] by blast
  with a show "(drop (spaceWidth spaceSeqs s) s, s) \<in> measure length"
    by simp
qed

declare TrimLeft.simps [simp del]

text \<open>
  Trimming on the right looks for the same encodings at the end of the string, which is
  looking for the reversed encodings at the start of the reversed string.
\<close>

function TrimRightRev :: "string \<Rightarrow> string" where
  "TrimRightRev r =
     (if spaceWidth (map rev spaceSeqs) r = 0 then r
      else TrimRightRev (drop (spaceWidth (map rev spaceSeqs) r) r))"
  by pat_completeness auto

termination TrimRightRev
proof (relation "measure length")
  show "wf (measure length)" by simp
next
  fix r :: string
  assume a: "spaceWidth (map rev spaceSeqs) r \<noteq> 0"
  have "[] \<notin> set (map rev spaceSeqs)"
    using Nil_notin_spaceSeqs by auto
  then have "r \<noteq> []"
    using a spaceWidth_pos_nonempty by blast
  with a show "(drop (spaceWidth (map rev spaceSeqs) r) r, r) \<in> measure length"
    by simp
qed

declare TrimRightRev.simps [simp del]

definition TrimRight :: "string \<Rightarrow> string" where
  "TrimRight s = rev (TrimRightRev (rev s))"

definition TrimSpace :: "string \<Rightarrow> string" where
  "TrimSpace s = TrimRight (TrimLeft s)"

definition HasPrefix :: "string \<Rightarrow> string \<Rightarrow> bool" where
  "HasPrefix s p = (length p \<le> length s \<and> take (length p) s = p)"

text \<open>
  \<open>strings.SplitN(s, "=", 2)\<close>: the whole string when it holds no \<open>=\<close>, otherwise the
  text before the first \<open>=\<close> and the text after it.
\<close>

definition SplitN2 :: "string \<Rightarrow> string list" where
  "SplitN2 s =
     (if CHR ''='' \<in> set s
      then [takeWhile (\<lambda>c. c \<noteq> CHR ''='') s, tl (dropWhile (\<lambda>c. c \<noteq> CHR ''='') s)]
      else [s])"

text \<open>\<open>strings.Split(s, ",")\<close>: the fields between the commas; one field for no comma.\<close>

fun Split :: "string \<Rightarrow> string list" where
  "Split [] = [[]]"
| "Split (c # cs) =
     (if c = CHR '','' then [] # Split cs
      else (case Split cs of
              [] \<Rightarrow> [[c]]
            | f # fs \<Rightarrow> (c # f) # fs))"

section \<open>The loop body of load: one line of a config file\<close>

text \<open>
  Lines 37 to 51 of load.go (the same lines in the variant with expansion): the line is
  trimmed, blank lines and comments are skipped, the rest is split at the first \<open>=\<close>,
  and a line that does not give two parts is skipped. \<open>None\<close> is \<open>continue\<close>.
\<close>

definition parseLine :: "string \<Rightarrow> (string \<times> string) option" where
  "parseLine text =
     (let line = TrimSpace text in
      if length line = 0 \<or> HasPrefix line ''#'' then None
      else (let parts = SplitN2 line in
            if length parts \<noteq> 2 then None
            else Some (TrimSpace (parts ! 0), TrimSpace (parts ! 1))))"

section \<open>The process environment\<close>

text \<open>
  The process environment is a map from names to values. \<open>os.Getenv\<close> gives the empty
  string for a name that is not set (and for the empty name); \<open>os.Setenv\<close> fails on an
  empty name, on a name holding \<open>=\<close> or a NUL byte, and on a value holding a NUL byte,
  and otherwise stores the value.
\<close>

type_synonym environ = "string \<rightharpoonup> string"

definition Getenv :: "environ \<Rightarrow> string \<Rightarrow> string" where
  "Getenv e key =
     (if length key = 0 then []
      else (case e key of None \<Rightarrow> [] | Some v \<Rightarrow> v))"

definition Setenv :: "string \<Rightarrow> string \<Rightarrow> environ \<Rightarrow> environ option" where
  "Setenv key v e =
     (if length key = 0 then None
      else if CHR ''='' \<in> set key \<or> CHR 0x00 \<in> set key then None
      else if CHR 0x00 \<in> set v then None
      else Some (e(key \<mapsto> v)))"

section \<open>expandVariables\<close>

text \<open>
  The regular expression \<open>\${([^}]+)}\<close> matches at the start of a string that begins
  with \<open>${\<close>, goes on with at least one byte other than \<open>}\<close>, and then has a \<open>}\<close>.
  \<open>matchAt\<close> gives the matched text and what follows it.
\<close>

definition matchAt :: "string \<Rightarrow> (string \<times> string) option" where
  "matchAt s =
     (case s of
        c1 # c2 # t \<Rightarrow>
          (if c1 = CHR ''$'' \<and> c2 = CHR ''{'' then
             (let name = takeWhile (\<lambda>c. c \<noteq> CHR ''}'') t;
                  r = dropWhile (\<lambda>c. c \<noteq> CHR ''}'') t
              in if name \<noteq> [] \<and> r \<noteq> []
                 then Some (c1 # c2 # name @ [CHR ''}''], tl r)
                 else None)
           else None)
      | _ \<Rightarrow> None)"

lemma matchAt_shorter: "matchAt s = Some (m, r) \<Longrightarrow> length r < length s"
proof -
  assume a: "matchAt s = Some (m, r)"
  then obtain c1 c2 t where s: "s = c1 # c2 # t"
    by (auto simp: matchAt_def split: list.splits)
  let ?d = "dropWhile (\<lambda>c. c \<noteq> CHR ''}'') t"
  from a s have "r = tl ?d"
    by (auto simp: matchAt_def Let_def split: if_splits)
  moreover have "length (tl ?d) \<le> length t"
    using length_dropWhile_le [of "\<lambda>c. c \<noteq> CHR ''}''" t] by simp
  ultimately show ?thesis using s by simp
qed

text \<open>
  \<open>re.ReplaceAllStringFunc(s, repl)\<close>: the matches are taken from left to right, without
  overlap, and each is replaced by what \<open>repl\<close> gives for it.
\<close>

function ReplaceAllStringFunc :: "string \<Rightarrow> (string \<Rightarrow> string) \<Rightarrow> string" where
  "ReplaceAllStringFunc [] repl = []"
| "ReplaceAllStringFunc (c # cs) repl =
     (case matchAt (c # cs) of
        Some (m, r) \<Rightarrow> repl m @ ReplaceAllStringFunc r repl
      | None \<Rightarrow> c # ReplaceAllStringFunc cs repl)"
  by pat_completeness auto

termination ReplaceAllStringFunc
proof (relation "measure (\<lambda>(s, repl). length s)")
  show "wf (measure (\<lambda>(s, repl :: string \<Rightarrow> string). length s))" by simp
next
  fix c :: char and cs :: string and repl :: "string \<Rightarrow> string" and x m r
  assume "matchAt (c # cs) = Some x" and "(m, r) = x"
  then have "matchAt (c # cs) = Some (m, r)" by simp
  then show "((r, repl), (c # cs, repl)) \<in> measure (\<lambda>(s, repl). length s)"
    using matchAt_shorter by fastforce
next
  fix c :: char and cs :: string and repl :: "string \<Rightarrow> string"
  show "((cs, repl), (c # cs, repl)) \<in> measure (\<lambda>(s, repl). length s)" by simp
qed

text \<open>
  The closure \<open>replacer\<close> of expandVariables: the name is the match without its first two
  bytes and its last one; an unset (or empty) variable leaves the placeholder as it is.
\<close>

definition replacer :: "environ \<Rightarrow> string \<Rightarrow> string" where
  "replacer e m =
     (let varName = drop 2 (take (length m - 1) m);
          varValue = Getenv e varName
      in if varValue = [] then m else varValue)"

text \<open>
  The \<open>for\<close> loop of expandVariables has no bound, so it is a partial function: \<open>None\<close>
  is a loop that never ends.
\<close>

partial_function (option) expandLoop :: "environ \<Rightarrow> string \<Rightarrow> string option" where
  "expandLoop e expandedValue =
     (let expandedValueNew = ReplaceAllStringFunc expandedValue (replacer e) in
      if expandedValueNew = expandedValue then Some expandedValue
      else expandLoop e expandedValueNew)"

declare expandLoop.simps [code]

text \<open>
  expandVariables returns a string and an error; the error it returns is always nil
  (\<open>None\<close> in the second component).
\<close>

definition expandVariables :: "environ \<Rightarrow> string \<Rightarrow> (string \<times> string option) option" where
  "expandVariables e v =
     (case expandLoop e (ReplaceAllStringFunc v (replacer e)) of
        None \<Rightarrow> None
      | Some expandedValue \<Rightarrow> Some (expandedValue, None))"

section \<open>load: the state it works on\<close>

text \<open>
  The errors that load sends on the channel \<open>ce\<close>, by the place that sends them; the
  argument is the file path or the key of the message. The text of the underlying
  operating-system error is not modelled.
\<close>

datatype load_error =
    FileNotFound string
  | OpenFailed string
  | ExpandFailed string
  | SetenvFailed string
  | ReadFailed string

datatype convert_error =
    ConversionError string string
  | UnsupportedType string string

datatype log_entry =
    WarnFileNotFound string
  | LoggedError load_error
  | WarnConvert string convert_error
  | WarnCannotSet string
  | WarnNotFound string

text \<open>
  What the goroutines of one Bind call share: the process environment, the map
  \<open>loadedVars\<close>, the buffered channel \<open>Ce\<close> (the errors sent and not yet received, oldest
  first) and the output of package log.
\<close>

record world =
  env :: environ
  loadedVars :: "string \<rightharpoonup> bool"
  Ce :: "load_error list"
  logs :: "log_entry list"

text \<open>Reading a Go \<open>map[string]bool\<close> at a key it does not hold gives \<open>false\<close>.\<close>

definition loaded :: "world \<Rightarrow> string \<Rightarrow> bool" where
  "loaded w key = (case loadedVars w key of None \<Rightarrow> False | Some b \<Rightarrow> b)"

text \<open>
  Lines 54 to 62 of load.go: the variable is set unless the key is marked in \<open>loadedVars\<close>,
  and the key is marked once it is set. \<open>Inl\<close> is the error sent before load returns.
\<close>

definition commit :: "string \<Rightarrow> string \<Rightarrow> world \<Rightarrow> load_error + world" where
  "commit key v w =
     (if \<not> loaded w key then
        (case Setenv key v (env w) of
           None \<Rightarrow> Inl (SetenvFailed key)
         | Some e' \<Rightarrow> Inr (w\<lparr>env := e', loadedVars := (loadedVars w)(key \<mapsto> True)\<rparr>))
      else Inr w)"

text \<open>
  The body of the scanning loop, for one line. \<open>loadLine\<close> is load.go; \<open>loadLineExpand\<close> is
  the variant of load that expands the value first, whose result is \<open>None\<close> when
  expandVariables does not return.
\<close>

definition loadLine :: "string \<Rightarrow> world \<Rightarrow> (load_error + world) option" where
  "loadLine text w =
     (case parseLine text of
        None \<Rightarrow> Some (Inr w)
      | Some (key, v) \<Rightarrow> Some (commit key v w))"

definition loadLineExpand :: "string \<Rightarrow> world \<Rightarrow> (load_error + world) option" where
  "loadLineExpand text w =
     (case parseLine text of
        None \<Rightarrow> Some (Inr w)
      | Some (key, v) \<Rightarrow>
          (case expandVariables (env w) v of
             None \<Rightarrow> None
           | Some (expandedValue, Some err) \<Rightarrow> Some (Inl (ExpandFailed key))
           | Some (expandedValue, None) \<Rightarrow> Some (commit key expandedValue w)))"

section \<open>load as a task that runs one step at a time\<close>

text \<open>
  A config file as load sees it: it does not exist, it cannot be opened, or the scanner
  yields its lines and then stops, with an error (\<open>True\<close>) or without.
\<close>

datatype envfile = NotExist | OpenFails | Lines "string list" bool

text \<open>
  One goroutine running load: about to look at its file, in the scanning loop with the
  lines still to come, returned, or blocked for ever in a send on the full channel.
\<close>

datatype task = Start string envfile | Scanning string "string list" bool | Done | Blocked

text \<open>
  \<open>ce <- err\<close> followed by \<open>return\<close>. Bind makes the channel with room for 10 errors and
  receives from it only after \<open>wg.Wait()\<close>, so the send into a full channel never ends,
  and its goroutine never reaches \<open>wg.Done()\<close>.
\<close>

definition CeCap :: nat where
  "CeCap = 10"

definition send :: "load_error \<Rightarrow> world \<Rightarrow> task \<times> world" where
  "send err w =
     (if length (Ce w) < CeCap then (Done, w\<lparr>Ce := Ce w @ [err]\<rparr>)
      else (Blocked, w))"

text \<open>
  The two variants of load differ in what they do with a missing file (a warning in
  load.go, an error in the variant with expansion) and in the loop body.
\<close>

datatype variant = Plain | Expanding

definition missingFile :: "variant \<Rightarrow> string \<Rightarrow> world \<Rightarrow> task \<times> world" where
  "missingFile var path w =
     (case var of
        Plain \<Rightarrow> (Done, w\<lparr>logs := logs w @ [WarnFileNotFound path]\<rparr>)
      | Expanding \<Rightarrow> send (FileNotFound path) w)"

definition lineOf :: "variant \<Rightarrow> string \<Rightarrow> world \<Rightarrow> (load_error + world) option" where
  "lineOf var = (case var of Plain \<Rightarrow> loadLine | Expanding \<Rightarrow> loadLineExpand)"

fun load_step :: "variant \<Rightarrow> task \<Rightarrow> world \<Rightarrow> (task \<times> world) option" where
  "load_step var (Start path NotExist) w = Some (missingFile var path w)"
| "load_step var (Start path OpenFails) w = Some (send (OpenFailed path) w)"
| "load_step var (Start path (Lines ls e)) w = Some (Scanning path ls e, w)"
| "load_step var (Scanning path [] e) w =
     (if e then Some (send (ReadFailed path) w) else Some (Done, w))"
| "load_step var (Scanning path (l # ls) e) w =
     (case lineOf var l w of
        None \<Rightarrow> None
      | Some (Inl err) \<Rightarrow> Some (send err w)
      | Some (Inr w') \<Rightarrow> Some (Scanning path ls e, w'))"
| "load_step var Done w = Some (Done, w)"
| "load_step var Blocked w = Some (Blocked, w)"

text \<open>load from its first statement to its return (or to the send that blocks).\<close>

fun scan :: "variant \<Rightarrow> string \<Rightarrow> string list \<Rightarrow> bool \<Rightarrow> world \<Rightarrow> (task \<times> world) option" where
  "scan var path [] e w = load_step var (Scanning path [] e) w"
| "scan var path (l # ls) e w =
     (case load_step var (Scanning path (l # ls) e) w of
        None \<Rightarrow> None
      | Some (Scanning path' ls' e', w') \<Rightarrow> scan var path ls e w'
      | Some (t, w') \<Rightarrow> Some (t, w'))"

definition load :: "variant \<Rightarrow> task \<Rightarrow> world \<Rightarrow> (task \<times> world) option" where
  "load var t w =
     (case t of
        Start path (Lines ls e) \<Rightarrow> scan var path ls e w
      | Scanning path ls e \<Rightarrow> scan var path ls e w
      | _ \<Rightarrow> load_step var t w)"

section \<open>The goroutines of Bind\<close>

text \<open>
  The goroutines run concurrently. A schedule is a list of task indices: each entry lets
  that task run one step (one file lookup, or one line of its loop), so every
  interleaving of the loads at the grain of a line is some schedule. When the schedule
  is used up, the tasks that have not returned run to their end one after the other,
  which is what \<open>wg.Wait()\<close> waits for. The check of \<open>loadedVars\<close> and the write that
  follows it are one step here: the model has no data race on the map.
\<close>

fun run_sched :: "variant \<Rightarrow> nat list \<Rightarrow> task list \<Rightarrow> world \<Rightarrow> (task list \<times> world) option" where
  "run_sched var [] ts w = Some (ts, w)"
| "run_sched var (i # sched) ts w =
     (if i < length ts then
        (case load_step var (ts ! i) w of
           None \<Rightarrow> None
         | Some (t', w') \<Rightarrow> run_sched var sched (ts[i := t']) w')
      else run_sched var sched ts w)"

fun run_rest :: "variant \<Rightarrow> task list \<Rightarrow> world \<Rightarrow> (task list \<times> world) option" where
  "run_rest var [] w = Some ([], w)"
| "run_rest var (t # ts) w =
     (case load var t w of
        None \<Rightarrow> None
      | Some (t', w') \<Rightarrow>
          (case run_rest var ts w' of
             None \<Rightarrow> None
           | Some (ts', w'') \<Rightarrow> Some (t' # ts', w'')))"

definition run_all :: "variant \<Rightarrow> nat list \<Rightarrow> task list \<Rightarrow> world \<Rightarrow> (task list \<times> world) option" where
  "run_all var sched ts w =
     (case run_sched var sched ts w of
        None \<Rightarrow> None
      | Some (ts', w') \<Rightarrow> run_rest var ts' w')"

section \<open>The parsers of package strconv that convert calls\<close>

text \<open>
  \<open>strconv.ParseBool\<close> accepts twelve literals. \<open>strconv.ParseInt(s, 10, 64)\<close> accepts an
  optional sign and decimal digits whose value fits 64 bits, \<open>strconv.ParseUint(s, 10,
  64)\<close> decimal digits alone. \<open>None\<close> is a non-nil error.
\<close>

definition ParseBool :: "string \<Rightarrow> bool option" where
  "ParseBool s =
     (if s \<in> set [''1'', ''t'', ''T'', ''TRUE'', ''true'', ''True''] then Some True
      else if s \<in> set [''0'', ''f'', ''F'', ''FALSE'', ''false'', ''False''] then Some False
      else None)"

definition digit :: "char \<Rightarrow> nat option" where
  "digit c =
     (if of_char c \<ge> (48::nat) \<and> of_char c \<le> (57::nat) then Some (of_char c - 48) else None)"

fun digits :: "nat \<Rightarrow> string \<Rightarrow> nat option" where
  "digits n [] = Some n"
| "digits n (c # cs) =
     (case digit c of None \<Rightarrow> None | Some d \<Rightarrow> digits (n * 10 + d) cs)"

definition ParseUint :: "string \<Rightarrow> nat option" where
  "ParseUint s =
     (if s = [] then None
      else (case digits 0 s of
              None \<Rightarrow> None
            | Some n \<Rightarrow> if n < 2 ^ 64 then Some n else None))"

definition ParseInt :: "string \<Rightarrow> int option" where
  "ParseInt s =
     (if s = [] then None
      else (let neg = (hd s = CHR ''-'');
                s' = (if hd s = CHR ''+'' \<or> hd s = CHR ''-'' then tl s else s)
            in case ParseUint s' of
                 None \<Rightarrow> None
               | Some un \<Rightarrow>
                   if \<not> neg \<and> un \<ge> 2 ^ 63 then None
                   else if neg \<and> un > 2 ^ 63 then None
                   else Some (if neg then - int un else int un)))"

text \<open>
  The parsers of floating-point, complex and duration literals belong to the Go
  library and are parameters of the model, with the narrowing that \<open>SetFloat\<close> and
  \<open>SetComplex\<close> do on a 32-bit float and a 64-bit complex field. A duration is its
  number of nanoseconds.
\<close>

record ('f, 'c) stdlib =
  ParseFloat :: "string \<Rightarrow> 'f option"
  ParseComplex :: "string \<Rightarrow> 'c option"
  ParseDuration :: "string \<Rightarrow> int option"
  toFloat32 :: "'f \<Rightarrow> 'f"
  toComplex64 :: "'c \<Rightarrow> 'c"

section \<open>Reflection: kinds, fields and the argument of Bind\<close>

datatype kind =
    Invalid | Bool | IntK | Int8 | Int16 | Int32 | Int64
  | Uint | Uint8 | Uint16 | Uint32 | Uint64 | Uintptr
  | Float32 | Float64 | Complex64 | Complex128
  | Array | Chan | Func | Interface | Map | Ptr | Slice | String | Struct | UnsafePointer

datatype ('f, 'c) gval =
    VString string | VInt int | VUint nat | VBool bool | VFloat 'f | VComplex 'c
  | VStrings "string list" | VOther

text \<open>
  A field of the target struct, as \<open>reflect\<close> shows it: the value of its \<open>env\<close> tag (empty
  when it has none), the kind of its type, whether its type is \<open>time.Duration\<close>, whether
  a \<open>[]string\<close> is assignable to it (a slice type whose element type is \<open>string\<close>),
  whether it can be set, and its value.
\<close>

record ('f, 'c) field =
  Tag :: string
  Kind :: kind
  IsDuration :: bool
  TakesStrings :: bool
  CanSet :: bool
  Val :: "('f, 'c) gval"

text \<open>
  \<open>SetInt\<close> and \<open>SetUint\<close> store a 64-bit value into a field of the field's width and
  drop the high bits (\<open>int\<close> and \<open>uint\<close> have 64 bits).
\<close>

definition SetInt :: "kind \<Rightarrow> int \<Rightarrow> int" where
  "SetInt k x =
     (case k of
        Int8 \<Rightarrow> sint (word_of_int x :: 8 word)
      | Int16 \<Rightarrow> sint (word_of_int x :: 16 word)
      | Int32 \<Rightarrow> sint (word_of_int x :: 32 word)
      | _ \<Rightarrow> sint (word_of_int x :: 64 word))"

definition SetUint :: "kind \<Rightarrow> nat \<Rightarrow> nat" where
  "SetUint k x =
     (case k of
        Uint8 \<Rightarrow> unat (word_of_nat x :: 8 word)
      | Uint16 \<Rightarrow> unat (word_of_nat x :: 16 word)
      | Uint32 \<Rightarrow> unat (word_of_nat x :: 32 word)
      | _ \<Rightarrow> unat (word_of_nat x :: 64 word))"

section \<open>convert\<close>

text \<open>
  convert either stores a value into the field and returns nil, or returns an error, or
  panics inside package reflect: a \<open>Set\<close> method panics on a field that cannot be set,
  and \<open>field.Set\<close> panics when the value is not assignable to the field's type. The
  error carries the name of the target that the message gives and the literal.
\<close>

datatype ('f, 'c) converted = Assigned "('f, 'c) gval" | Failed convert_error | Panic

definition assign :: "('f, 'c) field \<Rightarrow> ('f, 'c) gval \<Rightarrow> ('f, 'c) converted" where
  "assign fld v = (if CanSet fld then Assigned v else Panic)"

definition kindName :: "kind \<Rightarrow> string" where
  "kindName k =
     (case k of
        Invalid \<Rightarrow> ''invalid'' | Bool \<Rightarrow> ''bool'' | IntK \<Rightarrow> ''int'' | Int8 \<Rightarrow> ''int8''
      | Int16 \<Rightarrow> ''int16'' | Int32 \<Rightarrow> ''int32'' | Int64 \<Rightarrow> ''int64'' | Uint \<Rightarrow> ''uint''
      | Uint8 \<Rightarrow> ''uint8'' | Uint16 \<Rightarrow> ''uint16'' | Uint32 \<Rightarrow> ''uint32''
      | Uint64 \<Rightarrow> ''uint64'' | Uintptr \<Rightarrow> ''uintptr'' | Float32 \<Rightarrow> ''float32''
      | Float64 \<Rightarrow> ''float64'' | Complex64 \<Rightarrow> ''complex64''
      | Complex128 \<Rightarrow> ''complex128'' | Array \<Rightarrow> ''array'' | Chan \<Rightarrow> ''chan''
      | Func \<Rightarrow> ''func'' | Interface \<Rightarrow> ''interface'' | Map \<Rightarrow> ''map'' | Ptr \<Rightarrow> ''ptr''
      | Slice \<Rightarrow> ''slice'' | String \<Rightarrow> ''string'' | Struct \<Rightarrow> ''struct''
      | UnsafePointer \<Rightarrow> ''unsafe.Pointer'')"

definition convert :: "('f, 'c) stdlib \<Rightarrow> string \<Rightarrow> ('f, 'c) field \<Rightarrow> ('f, 'c) converted" where
  "convert lib v fld =
     (let k = Kind fld in
      if k = String then assign fld (VString v)
      else if k \<in> set [IntK, Int8, Int16, Int32, Int64] then
        (if IsDuration fld then
           (case ParseDuration lib v of
              None \<Rightarrow> Failed (ConversionError ''time.Duration'' v)
            | Some durationValue \<Rightarrow> assign fld (VInt durationValue))
         else
           (case ParseInt v of
              None \<Rightarrow> Failed (ConversionError ''int'' v)
            | Some intValue \<Rightarrow> assign fld (VInt (SetInt k intValue))))
      else if k \<in> set [Uint, Uint8, Uint16, Uint32, Uint64] then
        (case ParseUint v of
           None \<Rightarrow> Failed (ConversionError ''uint'' v)
         | Some uintValue \<Rightarrow> assign fld (VUint (SetUint k uintValue)))
      else if k = Bool then
        (case ParseBool v of
           None \<Rightarrow> Failed (ConversionError ''bool'' v)
         | Some boolValue \<Rightarrow> assign fld (VBool boolValue))
      else if k \<in> set [Float32, Float64] then
        (case ParseFloat lib v of
           None \<Rightarrow> Failed (ConversionError ''float'' v)
         | Some floatValue \<Rightarrow>
             assign fld (VFloat (if k = Float32 then toFloat32 lib floatValue else floatValue)))
      else if k \<in> set [Complex64, Complex128] then
        (case ParseComplex lib v of
           None \<Rightarrow> Failed (ConversionError ''complex'' v)
         | Some complexValue \<Rightarrow>
             assign fld
               (VComplex (if k = Complex64 then toComplex64 lib complexValue else complexValue)))
      else if k = Slice then
        (if CanSet fld \<and> TakesStrings fld then Assigned (VStrings (Split v)) else Panic)
      else Failed (UnsupportedType (kindName k) v))"

section \<open>Bind\<close>

text \<open>
  The argument \<open>i\<close> of Bind is an interface value: nil, a value of a type that is not a
  pointer type (with the kind of that type), a nil pointer, a pointer to a value that is
  not a struct (with its kind), or a pointer to a struct (with its fields).
\<close>

datatype ('f, 'c) target =
    NilInterface
  | NonPointer kind
  | NilPointer
  | PointerTo kind
  | PointerToStruct "('f, 'c) field list"

text \<open>
  \<open>reflect.TypeOf(i).Kind()\<close>: \<open>reflect.TypeOf\<close> of a nil interface is a nil \<open>Type\<close>, and
  the call of \<open>Kind\<close> on it panics (\<open>None\<close>).
\<close>

definition TypeOfKind :: "('f, 'c) target \<Rightarrow> kind option" where
  "TypeOfKind i =
     (case i of
        NilInterface \<Rightarrow> None
      | NonPointer k \<Rightarrow> Some k
      | NilPointer \<Rightarrow> Some Ptr
      | PointerTo k \<Rightarrow> Some Ptr
      | PointerToStruct flds \<Rightarrow> Some Ptr)"

text \<open>
  \<open>reflect.ValueOf(i).Elem().Kind()\<close> for a pointer: \<open>Elem\<close> of a nil pointer is the zero
  \<open>Value\<close>, whose kind is \<open>Invalid\<close>. Bind asks for it only when the kind of \<open>i\<close> is \<open>Ptr\<close>.
\<close>

definition ElemKind :: "('f, 'c) target \<Rightarrow> kind" where
  "ElemKind i =
     (case i of
        PointerTo k \<Rightarrow> k
      | PointerToStruct flds \<Rightarrow> Struct
      | _ \<Rightarrow> Invalid)"

definition fieldsOf :: "('f, 'c) target \<Rightarrow> ('f, 'c) field list" where
  "fieldsOf i = (case i of PointerToStruct flds \<Rightarrow> flds | _ \<Rightarrow> [])"

text \<open>
  The body of the loop over the fields (lines 68 to 86 of envar.go): the field after it
  and the warnings logged, or \<open>None\<close> when convert panics.
\<close>

definition bindField ::
  "('f, 'c) stdlib \<Rightarrow> environ \<Rightarrow> ('f, 'c) field \<Rightarrow> (('f, 'c) field \<times> log_entry list) option" where
  "bindField lib e fld =
     (let tag = Tag fld; envValue = Getenv e tag in
      if envValue \<noteq> [] then
        (if CanSet fld then
           (case convert lib envValue fld of
              Panic \<Rightarrow> None
            | Failed err \<Rightarrow> Some (fld, [WarnConvert tag err])
            | Assigned v \<Rightarrow> Some (fld\<lparr>Val := v\<rparr>, []))
         else Some (fld, [WarnCannotSet tag]))
      else Some (fld, [WarnNotFound tag]))"

text \<open>
  The loop: the fields as they are when it ends, the warnings, and whether it ended in
  a panic (the fields after the panicking one are then as they were).
\<close>

fun bindFields ::
  "('f, 'c) stdlib \<Rightarrow> environ \<Rightarrow> ('f, 'c) field list \<Rightarrow>
     ('f, 'c) field list \<times> log_entry list \<times> bool" where
  "bindFields lib e [] = ([], [], False)"
| "bindFields lib e (fld # flds) =
     (case bindField lib e fld of
        None \<Rightarrow> (fld # flds, [], True)
      | Some (fld', lg) \<Rightarrow>
          (case bindFields lib e flds of
             (flds', lg', p) \<Rightarrow> (fld' # flds', lg @ lg', p)))"

datatype bind_error = InvalidTarget | LoadError load_error

text \<open>
  How a call of Bind ends: it returns an error or nil, it panics, or it never gets past
  \<open>wg.Wait()\<close> because a load is blocked in its send.
\<close>

datatype outcome = Returned "bind_error option" | Panicked | Deadlocked

record ('f, 'c) bind_result =
  outcome :: outcome
  env_after :: environ
  log_after :: "log_entry list"
  target_after :: "('f, 'c) target"

text \<open>
  What Bind sets up before the loads run: an empty \<open>loadedVars\<close>, an empty channel, and
  one load for the \<open>.env\<close> file of the working directory when no path is given, one
  for each path otherwise. \<open>fs\<close> gives, for a directory, the \<open>.env\<close> file in it.
\<close>

definition initWorld :: "environ \<Rightarrow> world" where
  "initWorld e = \<lparr>env = e, loadedVars = Map.empty, Ce = [], logs = []\<rparr>"

definition startTasks :: "(string \<Rightarrow> envfile) \<Rightarrow> string \<Rightarrow> string list \<Rightarrow> task list" where
  "startTasks fs cwd rPath =
     (if length rPath = 0 then [Start cwd (fs cwd)] else [])
       @ map (\<lambda>path. Start path (fs path)) rPath"

text \<open>
  Bind from \<open>wg.Wait()\<close> on (lines 45 to 88 of envar.go), for the tasks and the state
  that the loads leave: no return while a load is blocked; with errors in the channel
  they are logged and the last one is returned; otherwise the fields are bound.
\<close>

definition afterWait ::
  "('f, 'c) stdlib \<Rightarrow> ('f, 'c) target \<Rightarrow> task list \<Rightarrow> world \<Rightarrow> ('f, 'c) bind_result" where
  "afterWait lib i ts w =
     (if Blocked \<in> set ts then
        \<lparr>outcome = Deadlocked, env_after = env w, log_after = logs w, target_after = i\<rparr>
      else
        (let errors = Ce w in
         if length errors > 0 then
           \<lparr>outcome = Returned (Some (LoadError (last errors))),
            env_after = env w,
            log_after = logs w @ map LoggedError errors,
            target_after = i\<rparr>
         else
           (case bindFields lib (env w) (fieldsOf i) of
              (flds', lg, p) \<Rightarrow>
                \<lparr>outcome = (if p then Panicked else Returned None),
                 env_after = env w,
                 log_after = logs w @ lg,
                 target_after = PointerToStruct flds'\<rparr>)))"

text \<open>
  Bind (envar.go). \<open>cwd\<close> is the working directory, \<open>sched\<close> the schedule of the
  goroutines, \<open>e\<close> the process environment at the call. The result is \<open>None\<close> when a
  load loops for ever in expandVariables.
\<close>

definition Bind ::
  "('f, 'c) stdlib \<Rightarrow> variant \<Rightarrow> (string \<Rightarrow> envfile) \<Rightarrow> string \<Rightarrow> nat list \<Rightarrow> environ \<Rightarrow>
     ('f, 'c) target \<Rightarrow> string list \<Rightarrow> ('f, 'c) bind_result option" where
  "Bind lib var fs cwd sched e i rPath =
     (case TypeOfKind i of
        None \<Rightarrow>
          Some \<lparr>outcome = Panicked, env_after = e, log_after = [], target_after = i\<rparr>
      | Some k \<Rightarrow>
          if k \<noteq> Ptr \<or> ElemKind i \<noteq> Struct then
            Some \<lparr>outcome = Returned (Some InvalidTarget), env_after = e, log_after = [],
                  target_after = i\<rparr>
          else
            (case run_all var sched (startTasks fs cwd rPath) (initWorld e) of
               None \<Rightarrow> None
             | Some (ts, w) \<Rightarrow> Some (afterWait lib i ts w)))"

section \<open>Properties of the loads\<close>

text \<open>
  What a step of a load does to the shared state. A relation between the state before
  and the state after that is reflexive and transitive, that holds when only the
  channel or the log changes and across a commit, holds across a step, across a whole
  load and across every schedule.
\<close>

lemma send_world:
  "send err w = (t, w') \<Longrightarrow> w' = w \<or> w' = w\<lparr>Ce := Ce w @ [err]\<rparr>"
  by (auto simp: send_def split: if_splits)

lemma send_task: "send err w = (t, w') \<Longrightarrow> t = Done \<or> t = Blocked"
  by (auto simp: send_def split: if_splits)

lemma missingFile_world:
  "missingFile var path w = (t, w') \<Longrightarrow>
     w' = w \<or> (\<exists>c. w' = w\<lparr>Ce := c\<rparr>) \<or> (\<exists>l. w' = w\<lparr>logs := l\<rparr>)"
  by (cases var) (auto simp: missingFile_def dest: send_world)

lemma lineOf_cases:
  assumes "lineOf var l w = Some r"
  shows "r = Inr w \<or> (\<exists>key v. r = commit key v w)
           \<or> (\<exists>key. r = Inl (ExpandFailed key))"
proof (cases var)
  case Plain
  with assms show ?thesis
    by (auto simp: lineOf_def loadLine_def split: option.splits)
next
  case Expanding
  with assms show ?thesis
    by (fastforce simp: lineOf_def loadLineExpand_def split: option.splits)
qed

lemma load_step_preserves:
  assumes Rrefl: "\<And>w. R w w"
    and chan: "\<And>w c. R w (w\<lparr>Ce := c\<rparr>)"
    and logd: "\<And>w l. R w (w\<lparr>logs := l\<rparr>)"
    and comm: "\<And>key v w w'. commit key v w = Inr w' \<Longrightarrow> R w w'"
    and step: "load_step var t w = Some (t', w')"
  shows "R w w'"
proof (cases t)
  case (Start path f)
  show ?thesis
  proof (cases f)
    case NotExist
    with Start step have "missingFile var path w = (t', w')" by simp
    from missingFile_world [OF this] show ?thesis using Rrefl chan logd by auto
  next
    case OpenFails
    with Start step have "send (OpenFailed path) w = (t', w')" by simp
    from send_world [OF this] show ?thesis using Rrefl chan by auto
  next
    case (Lines ls e)
    with Start step show ?thesis using Rrefl by simp
  qed
next
  case (Scanning path ls e)
  show ?thesis
  proof (cases ls)
    case Nil
    with Scanning step have "w' = w \<or> send (ReadFailed path) w = (t', w')"
      by (auto split: if_splits)
    then show ?thesis using Rrefl chan send_world by metis
  next
    case (Cons l ls')
    with Scanning step obtain r where r: "lineOf var l w = Some r"
      by (auto split: option.splits)
    show ?thesis
    proof (cases r)
      case (Inl err)
      with r Cons Scanning step have "send err w = (t', w')" by simp
      from send_world [OF this] show ?thesis using Rrefl chan by auto
    next
      case (Inr w2)
      with r Cons Scanning step have w2: "w2 = w'" by simp
      from lineOf_cases [OF r] Inr have "w2 = w \<or> (\<exists>key v. commit key v w = Inr w2)"
        by (metis sum.inject(2) sum.distinct(1))
      then show ?thesis using w2 Rrefl comm by auto
    qed
  qed
next
  case Done
  with step show ?thesis using Rrefl by simp
next
  case Blocked
  with step show ?thesis using Rrefl by simp
qed

lemma scan_preserves:
  assumes Rrefl: "\<And>w. R w w"
    and Rtrans: "\<And>a b c. R a b \<Longrightarrow> R b c \<Longrightarrow> R a c"
    and Rstep: "\<And>t w t' w'. load_step var t w = Some (t', w') \<Longrightarrow> R w w'"
  shows "scan var path ls e w = Some (t', w') \<Longrightarrow> R w w'"
proof (induction ls arbitrary: w)
  case Nil
  then have "load_step var (Scanning path [] e) w = Some (t', w')" by simp
  then show ?case by (rule Rstep)
next
  case (Cons l ls)
  from Cons.prems obtain t1 w1 where
    s1: "load_step var (Scanning path (l # ls) e) w = Some (t1, w1)"
    by (auto split: option.splits)
  then have r1: "R w w1" by (rule Rstep)
  show ?case
  proof (cases t1)
    case (Scanning p' ls' e')
    with Cons.prems s1 have "scan var path ls e w1 = Some (t', w')" by simp
    then have "R w1 w'" by (rule Cons.IH)
    with r1 show ?thesis by (rule Rtrans)
  qed (use Cons.prems s1 r1 in auto)
qed

lemma load_cases:
  "load var t w = load_step var t w \<or> (\<exists>path ls e. load var t w = scan var path ls e w)"
  by (auto simp: load_def split: task.splits envfile.splits)

lemma load_preserves:
  assumes Rrefl: "\<And>w. R w w"
    and Rtrans: "\<And>a b c. R a b \<Longrightarrow> R b c \<Longrightarrow> R a c"
    and Rstep: "\<And>t w t' w'. load_step var t w = Some (t', w') \<Longrightarrow> R w w'"
    and ld: "load var t w = Some (t', w')"
  shows "R w w'"
proof -
  from load_cases [of var t w] ld
  consider "load_step var t w = Some (t', w')"
    | path ls e where "scan var path ls e w = Some (t', w')"
    by auto
  then show ?thesis
  proof cases
    case 1
    then show ?thesis by (rule Rstep)
  next
    case 2
    with Rrefl Rtrans Rstep show ?thesis by (rule scan_preserves)
  qed
qed

lemma run_sched_preserves:
  assumes Rrefl: "\<And>w. R w w"
    and Rtrans: "\<And>a b c. R a b \<Longrightarrow> R b c \<Longrightarrow> R a c"
    and Rstep: "\<And>t w t' w'. load_step var t w = Some (t', w') \<Longrightarrow> R w w'"
  shows "run_sched var sched ts w = Some (ts', w') \<Longrightarrow> R w w'"
proof (induction sched arbitrary: ts w)
  case Nil
  then show ?case using Rrefl by simp
next
  case (Cons i sched)
  show ?case
  proof (cases "i < length ts")
    case True
    with Cons.prems obtain t1 w1 where
      s1: "load_step var (ts ! i) w = Some (t1, w1)"
      and rest: "run_sched var sched (ts[i := t1]) w1 = Some (ts', w')"
      by (auto split: option.splits)
    from s1 have "R w w1" by (rule Rstep)
    moreover from rest have "R w1 w'" by (rule Cons.IH)
    ultimately show ?thesis by (rule Rtrans)
  next
    case False
    with Cons.prems have "run_sched var sched ts w = Some (ts', w')" by simp
    then show ?thesis by (rule Cons.IH)
  qed
qed

lemma run_rest_preserves:
  assumes Rrefl: "\<And>w. R w w"
    and Rtrans: "\<And>a b c. R a b \<Longrightarrow> R b c \<Longrightarrow> R a c"
    and Rstep: "\<And>t w t' w'. load_step var t w = Some (t', w') \<Longrightarrow> R w w'"
  shows "run_rest var ts w = Some (ts', w') \<Longrightarrow> R w w'"
proof (induction ts arbitrary: w ts')
  case Nil
  then show ?case using Rrefl by simp
next
  case (Cons t ts)
  from Cons.prems obtain t1 w1 ts1 where
    l1: "load var t w = Some (t1, w1)"
    and rest: "run_rest var ts w1 = Some (ts1, w')"
    by (auto split: option.splits)
  from Rrefl Rtrans Rstep l1 have "R w w1"
    by (rule load_preserves)
  moreover from rest have "R w1 w'" by (rule Cons.IH)
  ultimately show ?case by (rule Rtrans)
qed

lemma run_all_preserves:
  assumes Rrefl: "\<And>w. R w w"
    and Rtrans: "\<And>a b c. R a b \<Longrightarrow> R b c \<Longrightarrow> R a c"
    and Rstep: "\<And>t w t' w'. load_step var t w = Some (t', w') \<Longrightarrow> R w w'"
    and run: "run_all var sched ts w = Some (ts', w')"
  shows "R w w'"
proof -
  from run obtain ts1 w1 where
    a: "run_sched var sched ts w = Some (ts1, w1)"
    and b: "run_rest var ts1 w1 = Some (ts', w')"
    by (auto simp: run_all_def split: option.splits)
  from Rrefl Rtrans Rstep a have "R w w1"
    by (rule run_sched_preserves)
  moreover from Rrefl Rtrans Rstep b have "R w1 w'"
    by (rule run_rest_preserves)
  ultimately show ?thesis by (rule Rtrans)
qed

subsection \<open>Commits\<close>

lemma Setenv_Some:
  "Setenv key v e = Some e' \<Longrightarrow> e' = e(key \<mapsto> v)"
  by (auto simp: Setenv_def split: if_splits)


lemma commit_unmarked:
  assumes "\<not> loaded w key" and "Setenv key v (env w) = Some e'"
  shows "commit key v w = Inr (w\<lparr>env := (env w)(key \<mapsto> v), loadedVars := (loadedVars w)(key \<mapsto> True)\<rparr>)"
  using assms Setenv_Some [OF assms(2)] by (simp add: commit_def)

lemma commit_failed:
  "\<not> loaded w key \<Longrightarrow> Setenv key v (env w) = None \<Longrightarrow> commit key v w = Inl (SetenvFailed key)"
  by (simp add: commit_def)

lemma commit_Inr_cases:
  assumes "commit k v w = Inr w'"
  shows "w' = w \<or> (\<not> loaded w k \<and>
           w' = w\<lparr>env := (env w)(k \<mapsto> v), loadedVars := (loadedVars w)(k \<mapsto> True)\<rparr>)"
proof (cases "loaded w k")
  case True
  with assms show ?thesis by (simp add: commit_def)
next
  case False
  with assms obtain e' where e': "Setenv k v (env w) = Some e'"
    by (auto simp: commit_def split: option.splits)
  from commit_unmarked [OF False e'] assms False show ?thesis by simp
qed


lemma commit_grows:
  assumes "commit k v w = Inr w'"
  shows "dom (env w) \<subseteq> dom (env w')"
  using commit_Inr_cases [OF assms] by auto


lemma load_step_grows:
  assumes "load_step var t w = Some (t', w')"
  shows "dom (env w) \<subseteq> dom (env w')"
proof (rule load_step_preserves [where R = "\<lambda>w w'. dom (env w) \<subseteq> dom (env w')", OF _ _ _ _ assms])
  show "dom (env w) \<subseteq> dom (env w)" for w :: world by simp
  show "dom (env w) \<subseteq> dom (env (w\<lparr>Ce := c\<rparr>))" for w :: world and c by simp
  show "dom (env w) \<subseteq> dom (env (w\<lparr>logs := l\<rparr>))" for w :: world and l by simp
  show "dom (env w) \<subseteq> dom (env w')" if "commit k v w = Inr w'" for k v w w'
    using that by (rule commit_grows)
qed


lemma run_all_grows:
  assumes "run_all var sched ts w = Some (ts', w')"
  shows "dom (env w) \<subseteq> dom (env w')"
proof (rule run_all_preserves [where R = "\<lambda>w w'. dom (env w) \<subseteq> dom (env w')", OF _ _ _ assms])
  show "dom (env w) \<subseteq> dom (env w)" for w :: world by simp
  show "dom (env a) \<subseteq> dom (env c)"
    if "dom (env a) \<subseteq> dom (env b)" and "dom (env b) \<subseteq> dom (env c)" for a b c :: world
    using that by (rule subset_trans)
  show "dom (env w) \<subseteq> dom (env w')" if "load_step var t w = Some (t', w')" for t w t' w'
    using that by (rule load_step_grows)
qed

lemma afterWait_env: "env_after (afterWait lib i ts w) = env w"
  by (simp add: afterWait_def Let_def split: prod.splits)

lemma Bind_env_cases:
  assumes "Bind lib var fs cwd sched e i rPath = Some r"
  shows "env_after r = e \<or>
         (\<exists>ts w. run_all var sched (startTasks fs cwd rPath) (initWorld e) = Some (ts, w)
                  \<and> r = afterWait lib i ts w)"
  using assms
  by (auto simp: Bind_def split: option.splits if_splits)

lemma Bind_grows:
  assumes "Bind lib var fs cwd sched e i rPath = Some r"
  shows "dom e \<subseteq> dom (env_after r)"
proof -
  from Bind_env_cases [OF assms]
  consider "env_after r = e"
    | ts w where "run_all var sched (startTasks fs cwd rPath) (initWorld e) = Some (ts, w)"
        and "r = afterWait lib i ts w"
    by blast
  then show ?thesis
  proof cases
    case 1
    then show ?thesis by simp
  next
    case 2
    from run_all_grows [OF 2(1)] have "dom e \<subseteq> dom (env w)"
      by (simp add: initWorld_def)
    with 2(2) show ?thesis by (simp add: afterWait_env)
  qed
qed

subsection \<open>One load on its own\<close>

lemma missingFile_task: "missingFile var path w = (t, w') \<Longrightarrow> t = Done \<or> t = Blocked"
  by (cases var) (auto simp: missingFile_def dest: send_task)

lemma load_step_task:
  assumes "load_step var t w = Some (t', w')"
  shows "t' = Done \<or> t' = Blocked \<or>
         (\<exists>path ls e. t' = Scanning path ls e \<and>
            (t = Start path (Lines ls e) \<or> (\<exists>l. t = Scanning path (l # ls) e)))"
proof (cases t)
  case (Start path f)
  show ?thesis
  proof (cases f)
    case NotExist
    with Start assms have "missingFile var path w = (t', w')" by simp
    then show ?thesis using missingFile_task by blast
  next
    case OpenFails
    with Start assms have "send (OpenFailed path) w = (t', w')" by simp
    then show ?thesis using send_task by blast
  next
    case (Lines ls e)
    with Start assms show ?thesis by simp
  qed
next
  case (Scanning path ls e)
  show ?thesis
  proof (cases ls)
    case Nil
    with Scanning assms have "t' = Done \<or> send (ReadFailed path) w = (t', w')"
      by (auto split: if_splits)
    then show ?thesis using send_task by blast
  next
    case (Cons l ls')
    with Scanning assms obtain r where r: "lineOf var l w = Some r"
      by (auto split: option.splits)
    show ?thesis
    proof (cases r)
      case (Inl err)
      with r Cons Scanning assms have "send err w = (t', w')" by simp
      then show ?thesis using send_task by blast
    next
      case (Inr w2)
      with r Cons Scanning assms show ?thesis by simp
    qed
  qed
next
  case Done
  with assms show ?thesis by simp
next
  case Blocked
  with assms show ?thesis by simp
qed

lemma load_final: "t = Done \<or> t = Blocked \<Longrightarrow> load var t w = Some (t, w)"
  by (auto simp: load_def)





lemma Bind_struct:
  "Bind lib var fs cwd sched e (PointerToStruct flds) rPath =
     (case run_all var sched (startTasks fs cwd rPath) (initWorld e) of
        None \<Rightarrow> None
      | Some (ts, w) \<Rightarrow> Some (afterWait lib (PointerToStruct flds) ts w))"
  by (simp add: Bind_def TypeOfKind_def ElemKind_def)



subsection \<open>Without expansion every load ends\<close>

lemma load_step_Plain: "\<exists>r. load_step Plain t w = Some r"
proof (cases t)
  case (Start path f)
  then show ?thesis by (cases f) simp_all
next
  case (Scanning path ls e)
  then show ?thesis
    by (cases ls) (auto simp: lineOf_def loadLine_def split: option.splits sum.splits)
qed simp_all

lemma scan_Plain: "\<exists>r. scan Plain path ls e w = Some r"
proof (induction ls arbitrary: w)
  case Nil
  show ?case using load_step_Plain [of "Scanning path [] e" w] by simp
next
  case (Cons l ls)
  from load_step_Plain [of "Scanning path (l # ls) e" w] obtain t1 w1 where
    s1: "load_step Plain (Scanning path (l # ls) e) w = Some (t1, w1)" by auto
  show ?case
  proof (cases t1)
    case (Scanning p' ls' e')
    with s1 Cons.IH [of w1] show ?thesis by simp
  qed (use s1 in auto)
qed

lemma load_Plain: "\<exists>r. load Plain t w = Some r"
  using load_cases [of Plain t w] load_step_Plain [of t w] scan_Plain by metis

lemma run_sched_Plain: "\<exists>r. run_sched Plain sched ts w = Some r"
proof (induction sched arbitrary: ts w)
  case Nil
  show ?case by simp
next
  case (Cons i sched)
  show ?case
  proof (cases "i < length ts")
    case True
    from load_step_Plain [of "ts ! i" w] obtain t1 w1 where
      "load_step Plain (ts ! i) w = Some (t1, w1)" by auto
    with True Cons.IH [of "ts[i := t1]" w1] show ?thesis by simp
  next
    case False
    with Cons.IH [of ts w] show ?thesis by simp
  qed
qed

lemma run_rest_Plain: "\<exists>r. run_rest Plain ts w = Some r"
proof (induction ts arbitrary: w)
  case Nil
  show ?case by simp
next
  case (Cons t ts)
  from load_Plain [of t w] obtain t1 w1 where l: "load Plain t w = Some (t1, w1)" by auto
  from Cons.IH [of w1] obtain ts1 w2 where "run_rest Plain ts w1 = Some (ts1, w2)" by auto
  with l show ?case by simp
qed

lemma run_all_Plain: "\<exists>r. run_all Plain sched ts w = Some r"
proof -
  from run_sched_Plain [of sched ts w] obtain ts1 w1 where
    "run_sched Plain sched ts w = Some (ts1, w1)" by auto
  with run_rest_Plain [of ts1 w1] show ?thesis by (simp add: run_all_def)
qed

lemma Bind_Plain_returns: "\<exists>r. Bind lib Plain fs cwd sched e i rPath = Some r"
proof -
  from run_all_Plain [of sched "startTasks fs cwd rPath" "initWorld e"] obtain ts w where
    "run_all Plain sched (startTasks fs cwd rPath) (initWorld e) = Some (ts, w)" by auto
  then show ?thesis by (simp add: Bind_def split: option.splits)
qed

subsection \<open>The error channel\<close>

text \<open>A task is live while its load has neither returned nor blocked.\<close>

definition live :: "task \<Rightarrow> bool" where
  "live t = (t \<noteq> Done \<and> t \<noteq> Blocked)"

lemma filter_update_count:
  "i < length xs \<Longrightarrow>
     length (filter P (xs[i := y])) + (if P (xs ! i) then 1 else 0) =
     length (filter P xs) + (if P y then 1 else 0)"
proof (induction xs arbitrary: i)
  case Nil
  then show ?case by simp
next
  case (Cons x xs)
  show ?case
  proof (cases i)
    case 0
    then show ?thesis by simp
  next
    case (Suc j)
    with Cons.prems have "j < length xs" by simp
    from Cons.IH [OF this] Suc show ?thesis by simp
  qed
qed

lemma send_Ce:
  "send err w = (t', w') \<Longrightarrow>
     (t' = Done \<and> length (Ce w) < CeCap \<and> Ce w' = Ce w @ [err]) \<or>
     (t' = Blocked \<and> CeCap \<le> length (Ce w) \<and> w' = w)"
  by (auto simp: send_def split: if_splits)

lemma commit_Ce: "commit k v w = Inr w' \<Longrightarrow> Ce w' = Ce w"
  using commit_Inr_cases [of k v w w'] by auto

lemma lineOf_Ce: "lineOf var l w = Some (Inr w') \<Longrightarrow> Ce w' = Ce w"
  using lineOf_cases [of var l w "Inr w'"] commit_Ce by (metis sum.distinct(1) sum.inject(2))

text \<open>
  What a step does to a task and to the channel: a task that has ended stays as it
  is; a live task stays live with the channel untouched, or ends with one more error
  in the channel or none, or blocks on the full channel.
\<close>

lemma load_step_channel:
  assumes "load_step var t w = Some (t', w')"
  shows "(\<not> live t \<and> t' = t \<and> w' = w) \<or>
         (live t \<and> live t' \<and> Ce w' = Ce w) \<or>
         (live t \<and> t' = Done \<and> Ce w' = Ce w) \<or>
         (live t \<and> t' = Done \<and> length (Ce w) < CeCap \<and> (\<exists>err. Ce w' = Ce w @ [err])) \<or>
         (live t \<and> t' = Blocked \<and> CeCap \<le> length (Ce w) \<and> w' = w)"
proof (cases t)
  case (Start path f)
  show ?thesis
  proof (cases f)
    case NotExist
    with Start assms have m: "missingFile var path w = (t', w')" by simp
    show ?thesis
    proof (cases var)
      case Plain
      with m Start show ?thesis by (auto simp: missingFile_def live_def)
    next
      case Expanding
      with m have "send (FileNotFound path) w = (t', w')" by (simp add: missingFile_def)
      from send_Ce [OF this] Start show ?thesis by (auto simp: live_def)
    qed
  next
    case OpenFails
    with Start assms have "send (OpenFailed path) w = (t', w')" by simp
    from send_Ce [OF this] Start show ?thesis by (auto simp: live_def)
  next
    case (Lines ls e)
    with Start assms show ?thesis by (auto simp: live_def)
  qed
next
  case (Scanning path ls e)
  show ?thesis
  proof (cases ls)
    case Nil
    show ?thesis
    proof (cases e)
      case True
      with Nil Scanning assms have "send (ReadFailed path) w = (t', w')" by simp
      from send_Ce [OF this] Scanning show ?thesis by (auto simp: live_def)
    next
      case False
      with Nil Scanning assms show ?thesis by (auto simp: live_def)
    qed
  next
    case (Cons l ls')
    with Scanning assms obtain r where r: "lineOf var l w = Some r"
      by (auto split: option.splits)
    show ?thesis
    proof (cases r)
      case (Inl err)
      with r Cons Scanning assms have "send err w = (t', w')" by simp
      from send_Ce [OF this] Scanning show ?thesis by (auto simp: live_def)
    next
      case (Inr w2)
      with r Cons Scanning assms have "t' = Scanning path ls' e" and "w' = w2" by simp_all
      moreover from r Inr have "Ce w2 = Ce w" by (simp add: lineOf_Ce)
      ultimately show ?thesis using Scanning by (auto simp: live_def)
    qed
  qed
next
  case Done
  with assms show ?thesis by (simp add: live_def)
next
  case Blocked
  with assms show ?thesis by (simp add: live_def)
qed

lemma scan_channel:
  "scan var path ls e w = Some (t', w') \<Longrightarrow>
     (t' = Done \<and> (Ce w' = Ce w \<or> length (Ce w) < CeCap \<and> (\<exists>err. Ce w' = Ce w @ [err]))) \<or>
     (t' = Blocked \<and> CeCap \<le> length (Ce w) \<and> Ce w' = Ce w)"
proof (induction ls arbitrary: w)
  case Nil
  then have st: "load_step var (Scanning path [] e) w = Some (t', w')" by simp
  from load_step_task [OF st] have "t' = Done \<or> t' = Blocked" by simp
  with load_step_channel [OF st] show ?case by (auto simp: live_def)
next
  case (Cons l ls)
  from Cons.prems obtain t1 w1 where
    s1: "load_step var (Scanning path (l # ls) e) w = Some (t1, w1)"
    by (auto split: option.splits)
  show ?case
  proof (cases t1)
    case (Scanning p' ls' e')
    with Cons.prems s1 have rest: "scan var path ls e w1 = Some (t', w')" by simp
    from load_step_channel [OF s1] Scanning have "Ce w1 = Ce w" by (auto simp: live_def)
    with Cons.IH [OF rest] show ?thesis by simp
  next
    case (Start p f)
    with load_step_task [OF s1] show ?thesis by simp
  next
    case Done
    with Cons.prems s1 have "t' = Done" "w' = w1" by simp_all
    with load_step_channel [OF s1] Done show ?thesis by (auto simp: live_def)
  next
    case Blocked
    with Cons.prems s1 have "t' = Blocked" "w' = w1" by simp_all
    with load_step_channel [OF s1] Blocked show ?thesis by (auto simp: live_def)
  qed
qed

lemma load_channel:
  assumes "load var t w = Some (t', w')"
  shows "(\<not> live t \<and> t' = t \<and> w' = w) \<or>
         (live t \<and> t' = Done \<and>
            (Ce w' = Ce w \<or> length (Ce w) < CeCap \<and> (\<exists>err. Ce w' = Ce w @ [err]))) \<or>
         (live t \<and> t' = Blocked \<and> CeCap \<le> length (Ce w) \<and> Ce w' = Ce w)"
proof -
  from load_cases [of var t w] assms
  consider (step) "load_step var t w = Some (t', w')"
      and "\<not> (\<exists>path ls e. t = Start path (Lines ls e) \<or> t = Scanning path ls e)"
    | (scan) path ls e where "scan var path ls e w = Some (t', w')"
      and "t = Start path (Lines ls e) \<or> t = Scanning path ls e"
    by (cases t) (auto simp: load_def split: envfile.splits)
  then show ?thesis
  proof cases
    case step
    from load_step_channel [OF step(1)] load_step_task [OF step(1)] step(2)
    show ?thesis by (auto simp: live_def)
  next
    case scan
    from scan(2) have "live t" by (auto simp: live_def)
    with scan_channel [OF scan(1)] show ?thesis by auto
  qed
qed

text \<open>
  With no load blocked and room in the channel for one error of every live load, no
  load ever blocks.
\<close>

definition roomy :: "task list \<Rightarrow> world \<Rightarrow> bool" where
  "roomy ts w = (length (Ce w) + length (filter live ts) \<le> CeCap \<and> Blocked \<notin> set ts)"

lemma roomy_step:
  assumes i: "i < length ts" and st: "load_step var (ts ! i) w = Some (t', w')"
    and inv: "roomy ts w"
  shows "roomy (ts[i := t']) w'"
proof -
  note cnt = filter_update_count [OF i, of live t']
  have sub: "set (ts[i := t']) \<subseteq> insert t' (set ts)" by (rule set_update_subset_insert)
  from inv have nb: "Blocked \<notin> set ts" and le: "length (Ce w) + length (filter live ts) \<le> CeCap"
    by (simp_all add: roomy_def)
  from load_step_channel [OF st]
  consider (same) "\<not> live (ts ! i)" "t' = ts ! i" "w' = w"
    | (go) "live (ts ! i)" "live t'" "Ce w' = Ce w"
    | (quiet) "live (ts ! i)" "t' = Done" "Ce w' = Ce w"
    | (sent) err where "live (ts ! i)" "t' = Done" "Ce w' = Ce w @ [err]"
    | (block) "live (ts ! i)" "t' = Blocked" "CeCap \<le> length (Ce w)"
    by blast
  then show ?thesis
  proof cases
    case same
    then have "ts[i := t'] = ts" by simp
    with same inv show ?thesis by simp
  next
    case go
    with cnt have "length (filter live (ts[i := t'])) = length (filter live ts)" by simp
    moreover from go(2) have "t' \<noteq> Blocked" by (simp add: live_def)
    ultimately show ?thesis using go(3) nb le sub by (auto simp: roomy_def)
  next
    case quiet
    with cnt have "length (filter live (ts[i := t'])) + 1 = length (filter live ts)"
      by (simp add: live_def)
    then show ?thesis using quiet nb le sub by (auto simp: roomy_def)
  next
    case sent
    with cnt have "length (filter live (ts[i := t'])) + 1 = length (filter live ts)"
      by (simp add: live_def)
    then show ?thesis using sent nb le sub by (auto simp: roomy_def)
  next
    case block
    with cnt have "1 \<le> length (filter live ts)" by (simp add: live_def)
    with le block(3) show ?thesis by simp
  qed
qed

lemma roomy_run_sched:
  "run_sched var sched ts w = Some (ts', w') \<Longrightarrow> roomy ts w \<Longrightarrow> roomy ts' w'"
proof (induction sched arbitrary: ts w)
  case Nil
  then show ?case by simp
next
  case (Cons i sched)
  show ?case
  proof (cases "i < length ts")
    case True
    with Cons.prems(1) obtain t1 w1 where
      s1: "load_step var (ts ! i) w = Some (t1, w1)"
      and rest: "run_sched var sched (ts[i := t1]) w1 = Some (ts', w')"
      by (auto split: option.splits)
    from roomy_step [OF True s1 Cons.prems(2)] have "roomy (ts[i := t1]) w1" .
    with Cons.IH [OF rest] show ?thesis .
  next
    case False
    with Cons.prems have "run_sched var sched ts w = Some (ts', w')" by simp
    from Cons.IH [OF this Cons.prems(2)] show ?thesis .
  qed
qed

lemma roomy_run_rest:
  "run_rest var ts w = Some (ts', w') \<Longrightarrow> roomy ts w \<Longrightarrow>
     Blocked \<notin> set ts' \<and> (\<forall>t \<in> set ts'. t = Done)"
proof (induction ts arbitrary: w ts')
  case Nil
  then show ?case by simp
next
  case (Cons t ts)
  from Cons.prems(1) obtain t1 w1 ts1 where
    l1: "load var t w = Some (t1, w1)"
    and rest: "run_rest var ts w1 = Some (ts1, w')" and res: "ts' = t1 # ts1"
    by (auto split: option.splits)
  from Cons.prems(2) have nb: "t \<noteq> Blocked" "Blocked \<notin> set ts"
    and le: "length (Ce w) + length (filter live (t # ts)) \<le> CeCap"
    by (auto simp: roomy_def)
  have "t1 = Done \<and> length (Ce w1) + length (filter live ts) \<le> CeCap"
  proof (cases "live t")
    case True
    with le have "length (Ce w) < CeCap" by simp
    with load_channel [OF l1] True le show ?thesis by auto
  next
    case False
    with nb have "t = Done" by (simp add: live_def)
    with load_channel [OF l1] False le show ?thesis by auto
  qed
  then have t1: "t1 = Done" and "roomy ts w1" using nb by (simp_all add: roomy_def)
  from Cons.IH [OF rest this(2)] t1 res show ?case by simp
qed

lemma startTasks_live: "filter live (startTasks fs cwd rPath) = startTasks fs cwd rPath"
  by (auto simp: startTasks_def live_def filter_id_conv)

lemma startTasks_length:
  "length (startTasks fs cwd rPath) = (if rPath = [] then 1 else length rPath)"
  by (simp add: startTasks_def)

lemma roomy_start:
  assumes "length rPath \<le> CeCap"
  shows "roomy (startTasks fs cwd rPath) (initWorld e)"
proof -
  have "length (startTasks fs cwd rPath) \<le> CeCap"
    using assms by (simp add: startTasks_length CeCap_def)
  moreover have "Blocked \<notin> set (startTasks fs cwd rPath)"
    by (auto simp: startTasks_def)
  ultimately show ?thesis
    by (simp add: roomy_def startTasks_live initWorld_def)
qed

lemma run_all_no_block:
  assumes "length rPath \<le> CeCap"
    and "run_all var sched (startTasks fs cwd rPath) (initWorld e) = Some (ts, w)"
  shows "Blocked \<notin> set ts"
proof -
  from assms(2) obtain ts1 w1 where
    a: "run_sched var sched (startTasks fs cwd rPath) (initWorld e) = Some (ts1, w1)"
    and b: "run_rest var ts1 w1 = Some (ts, w)"
    by (auto simp: run_all_def split: option.splits)
  from roomy_run_sched [OF a roomy_start [OF assms(1)]] have "roomy ts1 w1" .
  from roomy_run_rest [OF b this] show ?thesis by simp
qed

text \<open>
  A load of a file whose only line is \<open>=x\<close>: the key is empty, \<open>os.Setenv\<close> refuses it,
  and the load ends in a send. \<open>failing\<close> is such a load before its send.
\<close>

definition failing :: "task \<Rightarrow> bool" where
  "failing t = (\<exists>path. t = Start path (Lines [''=x''] False) \<or> t = Scanning path [''=x''] False)"

definition doneCount :: "task list \<Rightarrow> nat" where
  "doneCount ts = length (filter (\<lambda>t. t = Done) ts)"

definition stuck :: "environ \<Rightarrow> task list \<Rightarrow> world \<Rightarrow> bool" where
  "stuck e ts w =
     ((\<forall>t \<in> set ts. failing t \<or> t = Done \<or> t = Blocked) \<and>
      (\<exists>c. w = (initWorld e)\<lparr>Ce := c\<rparr> \<and> length c \<le> CeCap))"

lemma parseLine_eq_x: "parseLine ''=x'' = Some ([], ''x'')"
  by code_simp

lemma failing_line:
  "lineOf Plain ''=x'' ((initWorld e)\<lparr>Ce := c\<rparr>) = Some (Inl (SetenvFailed []))"
  by (simp add: lineOf_def loadLine_def parseLine_eq_x commit_def loaded_def initWorld_def
        Setenv_def)

lemma failing_step:
  assumes "failing t" and "w = (initWorld e)\<lparr>Ce := c\<rparr>"
    and "load_step Plain t w = Some (t', w')"
  shows "(failing t' \<and> w' = w) \<or> (t', w') = send (SetenvFailed []) w"
  using assms failing_line [where e = e and c = c]
  by (auto simp: failing_def)

lemma failing_load:
  assumes "failing t" and "w = (initWorld e)\<lparr>Ce := c\<rparr>"
  shows "load Plain t w = Some (send (SetenvFailed []) w)"
proof -
  have "scan Plain path [''=x''] False w = Some (send (SetenvFailed []) w)" for path
    using assms(2) failing_line [where e = e and c = c]
    by (cases "send (SetenvFailed []) w") (auto simp: send_def split: if_splits)
  with assms(1) show ?thesis by (auto simp: failing_def load_def)
qed

lemma send_stuck:
  assumes "w = (initWorld e)\<lparr>Ce := c\<rparr>" and "length c \<le> CeCap"
    and "send err w = (t', w')"
  shows "(t' = Done \<and> w' = (initWorld e)\<lparr>Ce := c @ [err]\<rparr> \<and> length (c @ [err]) \<le> CeCap)
         \<or> (t' = Blocked \<and> w' = w)"
  using assms by (auto simp: send_def split: if_splits)

lemma stuck_step:
  assumes i: "i < length ts" and st: "load_step Plain (ts ! i) w = Some (t', w')"
    and inv: "stuck e ts w" and cnt: "length (Ce w) = doneCount ts"
  shows "stuck e (ts[i := t']) w' \<and> length (Ce w') = doneCount (ts[i := t'])"
proof -
  from inv obtain c where w: "w = (initWorld e)\<lparr>Ce := c\<rparr>" and le: "length c \<le> CeCap"
    and forms: "\<forall>t \<in> set ts. failing t \<or> t = Done \<or> t = Blocked"
    by (auto simp: stuck_def)
  note upd = filter_update_count [OF i, of "\<lambda>t. t = Done" t']
  have sub: "set (ts[i := t']) \<subseteq> insert t' (set ts)" by (rule set_update_subset_insert)
  from forms i have "failing (ts ! i) \<or> ts ! i = Done \<or> ts ! i = Blocked" by simp
  then consider (f) "failing (ts ! i)" | (d) "ts ! i = Done \<or> ts ! i = Blocked" by blast
  then show ?thesis
  proof cases
    case d
    with st have "t' = ts ! i" "w' = w" by auto
    then have "ts[i := t'] = ts" by simp
    with \<open>w' = w\<close> inv cnt show ?thesis by simp
  next
    case f
    then have nd: "ts ! i \<noteq> Done" by (auto simp: failing_def)
    from failing_step [OF f w st]
    consider (go) "failing t'" "w' = w" | (snd) "(t', w') = send (SetenvFailed []) w" by blast
    then show ?thesis
    proof cases
      case go
      then have "t' \<noteq> Done" by (auto simp: failing_def)
      with upd nd have "doneCount (ts[i := t']) = doneCount ts" by (simp add: doneCount_def)
      moreover have "\<forall>t \<in> set (ts[i := t']). failing t \<or> t = Done \<or> t = Blocked"
        using forms sub go(1) by auto
      ultimately show ?thesis using go(2) w le cnt by (auto simp: stuck_def)
    next
      case snd
      then have "send (SetenvFailed []) w = (t', w')" by simp
      from send_stuck [OF w le this]
      consider (sent) "t' = Done" "w' = (initWorld e)\<lparr>Ce := c @ [SetenvFailed []]\<rparr>"
          "length (c @ [SetenvFailed []]) \<le> CeCap"
        | (blocked) "t' = Blocked" "w' = w"
        by blast
      then show ?thesis
      proof cases
        case sent
        with upd nd have "doneCount (ts[i := t']) = doneCount ts + 1"
          by (simp add: doneCount_def)
        moreover have "\<forall>t \<in> set (ts[i := t']). failing t \<or> t = Done \<or> t = Blocked"
          using forms sub sent(1) by auto
        ultimately show ?thesis using sent w cnt by (auto simp: stuck_def)
      next
        case blocked
        with upd nd have "doneCount (ts[i := t']) = doneCount ts" by (simp add: doneCount_def)
        moreover have "\<forall>t \<in> set (ts[i := t']). failing t \<or> t = Done \<or> t = Blocked"
          using forms sub blocked(1) by auto
        ultimately show ?thesis using blocked(2) w le cnt by (auto simp: stuck_def)
      qed
    qed
  qed
qed

lemma stuck_run_sched:
  "run_sched Plain sched ts w = Some (ts', w') \<Longrightarrow> stuck e ts w \<Longrightarrow>
     length (Ce w) = doneCount ts \<Longrightarrow>
     stuck e ts' w' \<and> length (Ce w') = doneCount ts' \<and> length ts' = length ts"
proof (induction sched arbitrary: ts w)
  case Nil
  then show ?case by simp
next
  case (Cons i sched)
  show ?case
  proof (cases "i < length ts")
    case True
    with Cons.prems(1) obtain t1 w1 where
      s1: "load_step Plain (ts ! i) w = Some (t1, w1)"
      and rest: "run_sched Plain sched (ts[i := t1]) w1 = Some (ts', w')"
      by (auto split: option.splits)
    from stuck_step [OF True s1 Cons.prems(2,3)]
    have "stuck e (ts[i := t1]) w1" and "length (Ce w1) = doneCount (ts[i := t1])"
      by simp_all
    from Cons.IH [OF rest this] show ?thesis by simp
  next
    case False
    with Cons.prems have "run_sched Plain sched ts w = Some (ts', w')" by simp
    from Cons.IH [OF this Cons.prems(2,3)] show ?thesis .
  qed
qed

lemma stuck_run_rest:
  "run_rest Plain ts w = Some (ts', w') \<Longrightarrow> stuck e ts w \<Longrightarrow>
     (\<forall>t \<in> set ts'. t = Done \<or> t = Blocked) \<and> length ts' = length ts \<and>
     length (Ce w') \<le> CeCap \<and>
     length (Ce w') + doneCount ts = length (Ce w) + doneCount ts'"
proof (induction ts arbitrary: w ts')
  case Nil
  then show ?case by (auto simp: stuck_def doneCount_def)
next
  case (Cons t ts)
  from Cons.prems(1) obtain t1 w1 ts1 where
    l1: "load Plain t w = Some (t1, w1)"
    and rest: "run_rest Plain ts w1 = Some (ts1, w')" and res: "ts' = t1 # ts1"
    by (auto split: option.splits)
  from Cons.prems(2) obtain c where w: "w = (initWorld e)\<lparr>Ce := c\<rparr>" and le: "length c \<le> CeCap"
    and t: "failing t \<or> t = Done \<or> t = Blocked"
    and forms: "\<forall>t \<in> set ts. failing t \<or> t = Done \<or> t = Blocked"
    by (auto simp: stuck_def)
  have step: "(t1 = Done \<or> t1 = Blocked) \<and> stuck e ts w1 \<and>
      length (Ce w1) + (if t = Done then 1 else 0) = length (Ce w) + (if t1 = Done then 1 else 0)"
  proof (cases "failing t")
    case True
    then have nd: "t \<noteq> Done" by (auto simp: failing_def)
    from failing_load [OF True w] l1 have "send (SetenvFailed []) w = (t1, w1)" by simp
    from send_stuck [OF w le this] nd forms w le show ?thesis
      by (auto simp: stuck_def)
  next
    case False
    with t have fin: "t = Done \<or> t = Blocked" by simp
    from load_final [OF fin, of Plain w] l1 have "t1 = t" "w1 = w" by simp_all
    with fin Cons.prems(2) forms show ?thesis by (auto simp: stuck_def)
  qed
  from step have s1: "stuck e ts w1" by simp
  from Cons.IH [OF rest s1] step res show ?case
    by (auto simp: doneCount_def)
qed

lemma startTasks_failing:
  "\<forall>t \<in> set (startTasks (\<lambda>p. Lines [''=x''] False) cwd rPath). failing t"
  by (auto simp: startTasks_def failing_def)

lemma doneCount_start: "doneCount (startTasks fs cwd rPath) = 0"
  by (auto simp: doneCount_def startTasks_def)

lemma too_many_failing_loads:
  assumes many: "CeCap < length rPath"
    and run: "run_all Plain sched (startTasks (\<lambda>p. Lines [''=x''] False) cwd rPath) (initWorld e)
                = Some (ts, w)"
  shows "Blocked \<in> set ts"
proof -
  let ?ts0 = "startTasks (\<lambda>p. Lines [''=x''] False) cwd rPath"
  from run obtain ts1 w1 where
    a: "run_sched Plain sched ?ts0 (initWorld e) = Some (ts1, w1)"
    and b: "run_rest Plain ts1 w1 = Some (ts, w)"
    by (auto simp: run_all_def split: option.splits)
  have s0: "stuck e ?ts0 (initWorld e)"
    using startTasks_failing [of cwd rPath]
    by (auto simp: stuck_def initWorld_def intro!: exI [of _ "[]"])
  have c0: "length (Ce (initWorld e)) = doneCount ?ts0"
    by (simp add: doneCount_start initWorld_def)
  from stuck_run_sched [OF a s0 c0] have s1: "stuck e ts1 w1"
    and c1: "length (Ce w1) = doneCount ts1" and l1: "length ts1 = length ?ts0"
    by simp_all
  from stuck_run_rest [OF b s1] have fin: "\<forall>t \<in> set ts. t = Done \<or> t = Blocked"
    and len: "length ts = length ts1" and cap: "length (Ce w) \<le> CeCap"
    and cnt: "length (Ce w) + doneCount ts1 = length (Ce w1) + doneCount ts"
    by simp_all
  from cnt c1 have "doneCount ts = length (Ce w)" by simp
  with cap have "doneCount ts \<le> CeCap" by simp
  moreover from many len l1 have "CeCap < length ts"
    by (cases rPath) (simp_all add: startTasks_length)
  ultimately have less: "length (filter (\<lambda>t. t = Done) ts) < length ts"
    by (simp add: doneCount_def)
  have "\<exists>t \<in> set ts. t \<noteq> Done"
  proof (rule ccontr)
    assume "\<not> (\<exists>t \<in> set ts. t \<noteq> Done)"
    then have "filter (\<lambda>t. t = Done) ts = ts" by (simp add: filter_id_conv)
    with less show False by simp
  qed
  with fin show ?thesis by auto
qed

section \<open>Properties of convert and of the binding pass\<close>

lemma convert_slice_panics:
  "Kind fld = Slice \<Longrightarrow> \<not> TakesStrings fld \<Longrightarrow> convert lib v fld = Panic"
  by (simp add: convert_def)

lemma convert_no_panic:
  assumes "CanSet fld" and "Kind fld = Slice \<longrightarrow> TakesStrings fld"
  shows "convert lib v fld \<noteq> Panic"
  using assms
  by (cases "Kind fld") (simp_all add: convert_def assign_def split: option.splits)

lemma convert_error_shape:
  assumes "convert lib v fld = Failed err"
  shows "err = ConversionError ''time.Duration'' v \<or> err = ConversionError ''int'' v \<or>
         err = ConversionError ''uint'' v \<or> err = ConversionError ''bool'' v \<or>
         err = ConversionError ''float'' v \<or> err = ConversionError ''complex'' v \<or>
         err = UnsupportedType (kindName (Kind fld)) v"
proof -
  let ?k = "Kind fld"
  consider (str) "?k = String"
    | (int) "?k \<in> set [IntK, Int8, Int16, Int32, Int64]"
    | (uint) "?k \<in> set [Uint, Uint8, Uint16, Uint32, Uint64]"
    | (bool) "?k = Bool"
    | (float) "?k \<in> set [Float32, Float64]"
    | (cplx) "?k \<in> set [Complex64, Complex128]"
    | (slice) "?k = Slice"
    | (other) "?k \<in> set [Invalid, Uintptr, Array, Chan, Func, Interface, Map, Ptr, Struct,
                UnsafePointer]"
    by (cases ?k) simp_all
  then show ?thesis
  proof cases
    case str
    with assms show ?thesis by (simp add: convert_def assign_def split: if_splits)
  next
    case int
    then have "?k \<noteq> String" by auto
    with int assms have
      "(case ParseDuration lib v of
          None \<Rightarrow> Failed (ConversionError ''time.Duration'' v)
        | Some durationValue \<Rightarrow> assign fld (VInt durationValue)) = Failed err
       \<or> (case ParseInt v of
          None \<Rightarrow> Failed (ConversionError ''int'' v)
        | Some intValue \<Rightarrow> assign fld (VInt (SetInt ?k intValue))) = Failed err"
      by (simp add: convert_def Let_def split: if_splits)
    then show ?thesis
      by (auto simp: assign_def split: option.splits if_splits)
  next
    case uint
    then have "?k \<noteq> String" "?k \<notin> set [IntK, Int8, Int16, Int32, Int64]" by auto
    with uint assms have
      "(case ParseUint v of
           None \<Rightarrow> Failed (ConversionError ''uint'' v)
         | Some uintValue \<Rightarrow> assign fld (VUint (SetUint ?k uintValue))) = Failed err"
      by (simp add: convert_def Let_def)
    then show ?thesis
      by (auto simp: assign_def split: option.splits if_splits)
  next
    case bool
    with assms have
      "(case ParseBool v of
           None \<Rightarrow> Failed (ConversionError ''bool'' v)
         | Some boolValue \<Rightarrow> assign fld (VBool boolValue)) = Failed err"
      by (simp add: convert_def Let_def)
    then show ?thesis
      by (auto simp: assign_def split: option.splits if_splits)
  next
    case float
    then have "?k \<noteq> String" "?k \<notin> set [IntK, Int8, Int16, Int32, Int64]"
      "?k \<notin> set [Uint, Uint8, Uint16, Uint32, Uint64]" "?k \<noteq> Bool" by auto
    with float assms have
      "(case ParseFloat lib v of
           None \<Rightarrow> Failed (ConversionError ''float'' v)
         | Some floatValue \<Rightarrow>
             assign fld (VFloat (if ?k = Float32 then toFloat32 lib floatValue else floatValue)))
        = Failed err"
      by (simp add: convert_def Let_def)
    then show ?thesis
      by (auto simp: assign_def split: option.splits if_splits)
  next
    case cplx
    then have "?k \<noteq> String" "?k \<notin> set [IntK, Int8, Int16, Int32, Int64]"
      "?k \<notin> set [Uint, Uint8, Uint16, Uint32, Uint64]" "?k \<noteq> Bool"
      "?k \<notin> set [Float32, Float64]" by auto
    with cplx assms have
      "(case ParseComplex lib v of
           None \<Rightarrow> Failed (ConversionError ''complex'' v)
         | Some complexValue \<Rightarrow>
             assign fld
               (VComplex (if ?k = Complex64 then toComplex64 lib complexValue else complexValue)))
        = Failed err"
      by (simp add: convert_def Let_def)
    then show ?thesis
      by (auto simp: assign_def split: option.splits if_splits)
  next
    case slice
    with assms show ?thesis by (simp add: convert_def split: if_splits)
  next
    case other
    then have "?k \<noteq> String" "?k \<notin> set [IntK, Int8, Int16, Int32, Int64]"
      "?k \<notin> set [Uint, Uint8, Uint16, Uint32, Uint64]" "?k \<noteq> Bool"
      "?k \<notin> set [Float32, Float64]" "?k \<notin> set [Complex64, Complex128]"
      "?k \<noteq> Slice" by auto
    with assms have "err = UnsupportedType (kindName ?k) v"
      by (simp add: convert_def Let_def)
    then show ?thesis by simp
  qed
qed

lemma Getenv_empty_name: "Getenv e [] = []"
  by (simp add: Getenv_def)

lemma Getenv_empty_value: "e name = Some [] \<Longrightarrow> Getenv e name = []"
  by (simp add: Getenv_def)

lemma bindField_absent:
  "Getenv e (Tag fld) = [] \<Longrightarrow> bindField lib e fld = Some (fld, [WarnNotFound (Tag fld)])"
  by (simp add: bindField_def)

lemma bindFields_absent:
  "bindFields lib e flds = (flds', lg, p) \<Longrightarrow>
     length flds' = length flds \<and>
     (\<forall>j<length flds. Getenv e (Tag (flds ! j)) = [] \<longrightarrow> flds' ! j = flds ! j)"
proof (induction flds arbitrary: flds' lg p)
  case Nil
  then show ?case by simp
next
  case (Cons fld flds)
  show ?case
  proof (cases "bindField lib e fld")
    case None
    with Cons.prems show ?thesis by simp
  next
    case (Some a)
    obtain fld1 lg1 where a: "a = (fld1, lg1)" by (cases a)
    obtain flds2 lg2 p2 where rest: "bindFields lib e flds = (flds2, lg2, p2)"
      by (cases "bindFields lib e flds")
    from Cons.prems Some a rest have res: "flds' = fld1 # flds2" by simp
    from Cons.IH [OF rest] have len: "length flds2 = length flds"
      and ih: "\<And>j. j < length flds \<Longrightarrow> Getenv e (Tag (flds ! j)) = [] \<Longrightarrow> flds2 ! j = flds ! j"
      by simp_all
    have hd: "Getenv e (Tag fld) = [] \<Longrightarrow> fld1 = fld"
      using Some a bindField_absent [of e fld lib] by simp
    show ?thesis
    proof (intro conjI allI impI)
      show "length flds' = length (fld # flds)" using res len by simp
    next
      fix j
      assume j: "j < length (fld # flds)" and g: "Getenv e (Tag ((fld # flds) ! j)) = []"
      show "flds' ! j = (fld # flds) ! j"
      proof (cases j)
        case 0
        with g res hd show ?thesis by simp
      next
        case (Suc j')
        with j g res ih [of j'] show ?thesis by simp
      qed
    qed
  qed
qed

lemma afterWait_target:
  "\<exists>flds'. target_after (afterWait lib (PointerToStruct flds) ts w) = PointerToStruct flds' \<and>
     length flds' = length flds \<and>
     (\<forall>j<length flds. Getenv (env w) (Tag (flds ! j)) = [] \<longrightarrow> flds' ! j = flds ! j)"
proof -
  obtain flds2 lg2 p2 where b: "bindFields lib (env w) flds = (flds2, lg2, p2)"
    by (cases "bindFields lib (env w) flds")
  from bindFields_absent [OF b] b show ?thesis
    by (simp add: afterWait_def Let_def fieldsOf_def)
qed

lemma bindField_no_panic:
  assumes "Kind fld = Slice \<longrightarrow> TakesStrings fld"
  shows "\<exists>r. bindField lib e fld = Some r"
proof (cases "Getenv e (Tag fld) \<noteq> [] \<and> CanSet fld")
  case True
  with convert_no_panic [of fld lib "Getenv e (Tag fld)"] assms show ?thesis
    by (cases "convert lib (Getenv e (Tag fld)) fld") (simp_all add: bindField_def Let_def)
next
  case False
  then show ?thesis by (auto simp: bindField_def Let_def)
qed

lemma bindFields_no_panic:
  assumes "\<forall>fld \<in> set flds. Kind fld = Slice \<longrightarrow> TakesStrings fld"
    and "bindFields lib e flds = (flds', lg, p)"
  shows "\<not> p"
  using assms
proof (induction flds arbitrary: flds' lg p)
  case Nil
  then show ?case by simp
next
  case (Cons fld flds)
  from Cons.prems(1) bindField_no_panic [of fld lib e] obtain fld1 lg1 where
    b: "bindField lib e fld = Some (fld1, lg1)" by auto
  obtain flds2 lg2 p2 where rest: "bindFields lib e flds = (flds2, lg2, p2)"
    by (cases "bindFields lib e flds")
  from Cons.prems(1) have "\<forall>fld \<in> set flds. Kind fld = Slice \<longrightarrow> TakesStrings fld" by simp
  from Cons.IH [OF this rest] have "\<not> p2" .
  with Cons.prems(2) b rest show ?case by simp
qed

text \<open>
  The two-tier policy, for at most ten paths: Bind gets past \<open>wg.Wait()\<close>; when an error
  was sent, all of them are logged, the last one is returned and no field is touched;
  when none was sent, the outcome is that of the binding pass, and that is nil when no
  slice field has an element type other than \<open>string\<close>, whatever the warnings.
\<close>

lemma Bind_two_tier:
  assumes few: "length rPath \<le> CeCap"
    and b: "Bind lib var fs cwd sched e (PointerToStruct flds) rPath = Some r"
  shows "\<exists>ts w. run_all var sched (startTasks fs cwd rPath) (initWorld e) = Some (ts, w) \<and>
     (Ce w \<noteq> [] \<longrightarrow>
        outcome r = Returned (Some (LoadError (last (Ce w)))) \<and>
        log_after r = logs w @ map LoggedError (Ce w) \<and>
        target_after r = PointerToStruct flds) \<and>
     (Ce w = [] \<longrightarrow>
        (\<exists>flds' lg p. bindFields lib (env w) flds = (flds', lg, p) \<and>
           outcome r = (if p then Panicked else Returned None) \<and>
           log_after r = logs w @ lg \<and> target_after r = PointerToStruct flds') \<and>
        ((\<forall>fld \<in> set flds. Kind fld = Slice \<longrightarrow> TakesStrings fld) \<longrightarrow>
           outcome r = Returned None))"
proof -
  from b obtain ts w where
    run: "run_all var sched (startTasks fs cwd rPath) (initWorld e) = Some (ts, w)"
    and r: "r = afterWait lib (PointerToStruct flds) ts w"
    unfolding Bind_struct by (auto split: option.splits)
  from run_all_no_block [OF few run] have nb: "Blocked \<notin> set ts" .
  obtain flds' lg p where bf: "bindFields lib (env w) flds = (flds', lg, p)"
    by (cases "bindFields lib (env w) flds")
  have err: "outcome r = Returned (Some (LoadError (last (Ce w)))) \<and>
        log_after r = logs w @ map LoggedError (Ce w) \<and>
        target_after r = PointerToStruct flds" if "Ce w \<noteq> []"
    using that nb r by (simp add: afterWait_def Let_def)
  have ok: "outcome r = (if p then Panicked else Returned None) \<and>
           log_after r = logs w @ lg \<and> target_after r = PointerToStruct flds'" if "Ce w = []"
    using that nb r bf by (simp add: afterWait_def Let_def fieldsOf_def)
  have nil: "outcome r = Returned None"
    if "Ce w = []" "\<forall>fld \<in> set flds. Kind fld = Slice \<longrightarrow> TakesStrings fld"
    using ok [OF that(1)] bindFields_no_panic [OF that(2) bf] by simp
  from run err ok nil bf show ?thesis by blast
qed

lemma Bind_invalid_target:
  assumes "i \<noteq> NilInterface" and "\<And>flds. i \<noteq> PointerToStruct flds"
    and "i \<noteq> PointerTo Struct"
  shows "Bind lib var fs cwd sched e i rPath =
     Some \<lparr>outcome = Returned (Some InvalidTarget), env_after = e, log_after = [],
           target_after = i\<rparr>"
  using assms by (cases i) (auto simp: Bind_def TypeOfKind_def ElemKind_def)

section \<open>Properties of parsing and of expansion\<close>













text \<open>One round of replacements, as a function of the value.\<close>

definition expandPass :: "environ \<Rightarrow> string \<Rightarrow> string" where
  "expandPass e s = ReplaceAllStringFunc s (replacer e)"

lemma expandLoop_unfold:
  "expandLoop e s = (if expandPass e s = s then Some s else expandLoop e (expandPass e s))"
  by (subst expandLoop.simps) (simp add: expandPass_def Let_def)

lemma expandLoop_fix:
  assumes "expandLoop e s = Some r"
  shows "expandPass e r = r \<and> (\<exists>n. r = (expandPass e ^^ n) s)"
proof (rule expandLoop.raw_induct
    [where P = "\<lambda>e s r. expandPass e r = r \<and> (\<exists>n. r = (expandPass e ^^ n) s)", OF _ assms])
  fix loop :: "environ \<Rightarrow> string \<Rightarrow> string option" and e s r
  assume IH: "\<And>e s r. loop e s = Some r \<Longrightarrow>
      expandPass e r = r \<and> (\<exists>n. r = (expandPass e ^^ n) s)"
    and body: "(let expandedValueNew = ReplaceAllStringFunc s (replacer e)
                in if expandedValueNew = s then Some s else loop e expandedValueNew) = Some r"
  show "expandPass e r = r \<and> (\<exists>n. r = (expandPass e ^^ n) s)"
  proof (cases "expandPass e s = s")
    case True
    with body have "r = s" by (simp add: expandPass_def Let_def)
    with True show ?thesis by (auto intro: exI [of _ 0])
  next
    case False
    with body have "loop e (expandPass e s) = Some r"
      by (simp add: expandPass_def Let_def)
    from IH [OF this] obtain n where
      "expandPass e r = r" and "r = (expandPass e ^^ n) (expandPass e s)"
      by blast
    then have "expandPass e r = r \<and> r = (expandPass e ^^ Suc n) s"
      by (simp add: funpow_swap1)
    then show ?thesis by blast
  qed
qed

lemma expandLoop_reaches:
  assumes "expandPass e ((expandPass e ^^ n) s) = (expandPass e ^^ n) s"
  shows "\<exists>m\<le>n. expandLoop e s = Some ((expandPass e ^^ m) s)"
  using assms
proof (induction n arbitrary: s)
  case 0
  then have "expandLoop e s = Some s" by (subst expandLoop_unfold) simp
  then show ?case by simp
next
  case (Suc n)
  show ?case
  proof (cases "expandPass e s = s")
    case True
    then have "expandLoop e s = Some s" by (subst expandLoop_unfold) simp
    then show ?thesis by (auto intro: exI [of _ 0])
  next
    case False
    from Suc.prems have
      "expandPass e ((expandPass e ^^ n) (expandPass e s)) = (expandPass e ^^ n) (expandPass e s)"
      by (simp add: funpow_swap1)
    from Suc.IH [OF this] obtain m where m: "m \<le> n"
      and l: "expandLoop e (expandPass e s) = Some ((expandPass e ^^ m) (expandPass e s))"
      by blast
    from False l have "expandLoop e s = Some ((expandPass e ^^ Suc m) s)"
      by (subst expandLoop_unfold) (simp add: funpow_swap1)
    with m show ?thesis by (intro exI [of _ "Suc m"]) simp
  qed
qed

lemma expandVariables_Some:
  assumes "expandVariables e v = Some (r, err)"
  shows "err = None \<and> expandPass e r = r \<and> (\<exists>n. r = (expandPass e ^^ n) v)"
proof -
  from assms have l: "expandLoop e (expandPass e v) = Some r" and e: "err = None"
    by (auto simp: expandVariables_def expandPass_def split: option.splits)
  from expandLoop_fix [OF l] obtain n where
    "expandPass e r = r" and "r = (expandPass e ^^ n) (expandPass e v)"
    by blast
  then have "expandPass e r = r \<and> r = (expandPass e ^^ Suc n) v"
    by (simp add: funpow_swap1)
  with e show ?thesis by blast
qed

lemma expandVariables_returns_iff:
  "(\<exists>x. expandVariables e v = Some x) \<longleftrightarrow>
     (\<exists>n. expandPass e ((expandPass e ^^ n) v) = (expandPass e ^^ n) v)"
proof
  assume "\<exists>x. expandVariables e v = Some x"
  then obtain r err where "expandVariables e v = Some (r, err)" by auto
  from expandVariables_Some [OF this] show
    "\<exists>n. expandPass e ((expandPass e ^^ n) v) = (expandPass e ^^ n) v"
    by metis
next
  assume "\<exists>n. expandPass e ((expandPass e ^^ n) v) = (expandPass e ^^ n) v"
  then obtain n where n: "expandPass e ((expandPass e ^^ n) v) = (expandPass e ^^ n) v"
    by blast
  have "expandPass e ((expandPass e ^^ n) (expandPass e v)) = (expandPass e ^^ n) (expandPass e v)"
    using n by (simp add: funpow_swap1 [symmetric])
  from expandLoop_reaches [OF this] obtain m where
    "expandLoop e (expandPass e v) = Some ((expandPass e ^^ m) (expandPass e v))"
    by blast
  then show "\<exists>x. expandVariables e v = Some x"
    by (simp add: expandVariables_def expandPass_def)
qed





lemma expandVariables_fixpoint:
  "expandPass e (expandPass e v) = expandPass e v \<Longrightarrow>
     expandVariables e v = Some (expandPass e v, None)"
  by (simp add: expandVariables_def expandPass_def [symmetric] expandLoop_unfold [of e "expandPass e v"])




section \<open>Examples\<close>

text \<open>A library whose parsers accept nothing, for the examples that convert nothing.\<close>

definition noLib :: "(unit, unit) stdlib" where
  "noLib = \<lparr>ParseFloat = (\<lambda>s. None), ParseComplex = (\<lambda>s. None),
            ParseDuration = (\<lambda>s. None), toFloat32 = (\<lambda>x. x), toComplex64 = (\<lambda>x. x)\<rparr>"



definition emptyField :: "(unit, unit) field" where
  "emptyField =
     \<lparr>Tag = ''E'', Kind = IntK, IsDuration = False, TakesStrings = False, CanSet = True,
      Val = VInt 7\<rparr>"

definition untaggedField :: "(unit, unit) field" where
  "untaggedField =
     \<lparr>Tag = [], Kind = String, IsDuration = False, TakesStrings = False, CanSet = True,
      Val = VString ''keep''\<rparr>"

definition portField :: "(unit, unit) field" where
  "portField =
     \<lparr>Tag = ''P'', Kind = IntK, IsDuration = False, TakesStrings = False, CanSet = True,
      Val = VInt 0\<rparr>"

text \<open>The environment of the example: \<open>A=x\<close> and \<open>B=y\<close>.\<close>

definition xyEnv :: environ where
  "xyEnv = [''A'' \<mapsto> ''x'', ''B'' \<mapsto> ''y'']"

text \<open>An environment in which \<open>A\<close> and \<open>B\<close> name each other.\<close>

definition cyclicEnv :: environ where
  "cyclicEnv = [''A'' \<mapsto> ''${B}'', ''B'' \<mapsto> ''${A}'']"

lemma parseLine_K_new: "parseLine ''K=new'' = Some (''K'', ''new'')"
  by code_simp

lemma parseLine_K_late: "parseLine ''K=late'' = Some (''K'', ''late'')"
  by code_simp

lemma parseLine_N_1: "parseLine ''N = 1'' = Some (''N'', ''1'')"
  by code_simp


lemma parseLine_C: "parseLine ''C=${A}'' = Some (''C'', ''${A}'')"
  by code_simp


lemma Setenv_K: "Setenv ''K'' ''new'' e = Some (e(''K'' \<mapsto> ''new''))"
  by (simp add: Setenv_def)

lemma Setenv_K_late: "Setenv ''K'' ''late'' e = Some (e(''K'' \<mapsto> ''late''))"
  by (simp add: Setenv_def)

lemma Setenv_N: "Setenv ''N'' ''1'' e = Some (e(''N'' \<mapsto> ''1''))"
  by (simp add: Setenv_def)


lemma Setenv_empty_key: "Setenv [] v e = None"
  by (simp add: Setenv_def)

lemma Getenv_xy: "Getenv xyEnv ''A'' = ''x''" "Getenv xyEnv ''B'' = ''y''" "Getenv xyEnv ''C'' = []"
  by (simp_all add: Getenv_def xyEnv_def)


lemma ParseInt_42: "ParseInt ''42'' = Some 42"
  by (simp add: ParseInt_def ParseUint_def digit_def)



lemma Split_abc: "Split ''a,b,c'' = [''a'', ''b'', ''c'']"
  by simp

lemmas Bind_eval =
  Bind_struct startTasks_def initWorld_def run_all_def load_def lineOf_def loadLine_def
  commit_def loaded_def afterWait_def fieldsOf_def

lemmas bind_eval =
  missingFile_def bindField_def Getenv_def convert_def assign_def Let_def SetInt_def

lemma cyclic_pass:
  "expandPass cyclicEnv ''${A}'' = ''${B}''" "expandPass cyclicEnv ''${B}'' = ''${A}''"
  by (simp_all add: expandPass_def matchAt_def replacer_def Getenv_def cyclicEnv_def)

lemma cyclic_iterates:
  "(expandPass cyclicEnv ^^ n) ''${A}'' = (if even n then ''${A}'' else ''${B}'')"
  by (induction n) (simp_all add: cyclic_pass)

lemma cyclic_diverges: "expandVariables cyclicEnv ''${A}'' = None"
proof (rule ccontr)
  assume "expandVariables cyclicEnv ''${A}'' \<noteq> None"
  then have "\<exists>x. expandVariables cyclicEnv ''${A}'' = Some x" by auto
  then obtain n where
    "expandPass cyclicEnv ((expandPass cyclicEnv ^^ n) ''${A}'') = (expandPass cyclicEnv ^^ n) ''${A}''"
    unfolding expandVariables_returns_iff by blast
  then show False
    by (cases "even n") (simp_all add: cyclic_iterates cyclic_pass)
qed

text \<open>
  Two directories that both define \<open>K\<close>: the value in the environment is that of the
  load that commits first.
\<close>

definition twoDirs :: "string \<Rightarrow> envfile" where
  "twoDirs path = (if path = ''a'' then Lines [''K=new''] False else Lines [''K=late''] False)"

lemma Bind_two_directories:
  "Bind noLib Plain twoDirs [] [0, 0] Map.empty (PointerToStruct []) [''a'', ''b''] =
     Some \<lparr>outcome = Returned None, env_after = [''K'' \<mapsto> ''new''], log_after = [],
           target_after = PointerToStruct []\<rparr>"
  "Bind noLib Plain twoDirs [] [1, 1] Map.empty (PointerToStruct []) [''a'', ''b''] =
     Some \<lparr>outcome = Returned None, env_after = [''K'' \<mapsto> ''late''], log_after = [],
           target_after = PointerToStruct []\<rparr>"
  by (simp_all add: Bind_eval twoDirs_def parseLine_K_new parseLine_K_late Setenv_K Setenv_K_late)

text \<open>
  Ten loads that fail: Bind returns the last error and logs all ten.
\<close>

lemma Bind_ten_failing_loads:
  "Bind lib Plain (\<lambda>p. Lines [''=x''] False) cwd [] e (PointerToStruct flds)
       [''d01'', ''d02'', ''d03'', ''d04'', ''d05'', ''d06'', ''d07'', ''d08'', ''d09'',
        ''d10''] =
     Some \<lparr>outcome = Returned (Some (LoadError (SetenvFailed []))), env_after = e,
           log_after = replicate 10 (LoggedError (SetenvFailed [])),
           target_after = PointerToStruct flds\<rparr>"
  by (simp add: Bind_eval parseLine_eq_x Setenv_empty_key send_def CeCap_def
        eval_nat_numeral)

text \<open>
  A settable field of type \<open>[]int\<close> whose variable is set: the panic of convert leaves
  Bind.
\<close>

lemma Bind_int_slice_panics:
  "outcome (the (Bind lib var (\<lambda>p. Lines [] False) cwd [] [''PORTS'' \<mapsto> ''1,2'']
      (PointerToStruct [\<lparr>Tag = ''PORTS'', Kind = Slice, IsDuration = False,
         TakesStrings = False, CanSet = True, Val = VOther\<rparr>]) [''d''])) = Panicked"
  by (cases var) (simp_all add: Bind_eval bind_eval)

text \<open>
  A line whose value never stops expanding: the load, and with it Bind, never
  returns.
\<close>

lemma Bind_hangs_on_cycle:
  "Bind lib Expanding (\<lambda>p. Lines [''C=${A}''] False) cwd [] cyclicEnv (PointerToStruct flds)
     [''d''] = None"
  by (simp add: Bind_struct startTasks_def initWorld_def run_all_def load_def lineOf_def
        loadLineExpand_def parseLine_C cyclic_diverges)

section \<open>The claims\<close>

text \<open>
  Claim C1 (the two-tier error policy) fails on the code when more than ten loads
  report an error: the channel holds ten errors, every further load blocks in its send
  and never calls \<open>wg.Done()\<close>, and Bind never gets past \<open>wg.Wait()\<close>, whatever the
  schedule of the goroutines. Directories whose \<open>.env\<close> file is the line \<open>=x\<close> (an empty
  key, which \<open>os.Setenv\<close> refuses) do it. For at most ten paths the policy holds (lemma
  \<open>Bind_two_tier\<close>).
\<close>

theorem too_many_errors_deadlock:
  assumes "CeCap < length rPath"
  shows "\<exists>r. Bind lib Plain (\<lambda>p. Lines [''=x''] False) cwd sched e (PointerToStruct flds) rPath
               = Some r \<and> outcome r = Deadlocked"
proof -
  from run_all_Plain [of sched "startTasks (\<lambda>p. Lines [''=x''] False) cwd rPath" "initWorld e"]
  obtain ts w where
    run: "run_all Plain sched (startTasks (\<lambda>p. Lines [''=x''] False) cwd rPath) (initWorld e)
            = Some (ts, w)"
    by auto
  from too_many_failing_loads [OF assms run] have "Blocked \<in> set ts" .
  with run show ?thesis by (simp add: Bind_struct afterWait_def)
qed

theorem too_many_errors_deadlock_witness:
  "CeCap < length [''d01'', ''d02'', ''d03'', ''d04'', ''d05'', ''d06'', ''d07'', ''d08'', ''d09'',
        ''d10'', ''d11''] \<and>
   outcome (the (Bind noLib Plain (\<lambda>p. Lines [''=x''] False) [] [3, 1, 4, 1, 5, 9, 2, 6]
       Map.empty (PointerToStruct [])
       [''d01'', ''d02'', ''d03'', ''d04'', ''d05'', ''d06'', ''d07'', ''d08'', ''d09'',
        ''d10'', ''d11''])) = Deadlocked"
proof -
  let ?paths = "[''d01'', ''d02'', ''d03'', ''d04'', ''d05'', ''d06'', ''d07'', ''d08'', ''d09'',
        ''d10'', ''d11'']"
  have many: "CeCap < length ?paths" by (simp add: CeCap_def)
  from too_many_errors_deadlock [OF many, where lib = noLib and cwd = "[]"
      and sched = "[3, 1, 4, 1, 5, 9, 2, 6]" and e = Map.empty and flds = "[]"]
  have "outcome (the (Bind noLib Plain (\<lambda>p. Lines [''=x''] False) [] [3, 1, 4, 1, 5, 9, 2, 6]
       Map.empty (PointerToStruct []) ?paths)) = Deadlocked"
    by auto
  with many show ?thesis by blast
qed







text \<open>
  Claim C5 (expansion terminates on every input) fails on the code: the loop of
  expandVariables has no bound and no error is ever returned. With \<open>A=${B}\<close> and
  \<open>B=${A}\<close> in the environment the value \<open>${A}\<close> alternates between the two
  placeholders and expandVariables does not return (and neither does a Bind that loads
  a line with that value, lemma \<open>Bind_hangs_on_cycle\<close>).
\<close>

theorem expansion_loops_on_cycle:
  "expandVariables [''A'' \<mapsto> ''${B}'', ''B'' \<mapsto> ''${A}''] ''${A}'' = None"
  using cyclic_diverges by (simp add: cyclicEnv_def)

text \<open>
  Claim C5 as amended: expandVariables returns exactly when repeating the pass reaches
  a fixpoint after finitely many passes; it then returns that fixpoint, and the error it
  returns is nil.
\<close>

theorem expansion_returns_at_fixpoint:
  "((\<exists>x. expandVariables e v = Some x) \<longleftrightarrow>
      (\<exists>n. expandPass e ((expandPass e ^^ n) v) = (expandPass e ^^ n) v)) \<and>
   (expandVariables e v = Some (r, err) \<longrightarrow>
      err = None \<and> expandPass e r = r \<and> (\<exists>n. r = (expandPass e ^^ n) v))"
proof (intro conjI impI)
  show "(\<exists>x. expandVariables e v = Some x) \<longleftrightarrow>
      (\<exists>n. expandPass e ((expandPass e ^^ n) v) = (expandPass e ^^ n) v)"
    by (rule expandVariables_returns_iff)
  show "err = None" and "expandPass e r = r" and "\<exists>n. r = (expandPass e ^^ n) v"
    if "expandVariables e v = Some (r, err)"
    using expandVariables_Some [OF that] by simp_all
qed

theorem expansion_returns_at_fixpoint_witness:
  "expandPass xyEnv ((expandPass xyEnv ^^ 1) ''${A}/${B}'') = (expandPass xyEnv ^^ 1) ''${A}/${B}'' \<and>
   (\<exists>x. expandVariables xyEnv ''${A}/${B}'' = Some x) \<and>
   expandVariables xyEnv ''${A}/${B}'' = Some (''x/y'', None) \<and>
   expandPass xyEnv ''x/y'' = ''x/y''"
proof -
  note t = expansion_returns_at_fixpoint [where e = xyEnv and v = "''${A}/${B}''"
      and r = "''x/y''" and err = None]
  have p: "expandPass xyEnv ''${A}/${B}'' = ''x/y''" "expandPass xyEnv ''x/y'' = ''x/y''"
    by (simp_all add: expandPass_def matchAt_def replacer_def Getenv_xy)
  then have 1: "expandPass xyEnv ((expandPass xyEnv ^^ 1) ''${A}/${B}'')
      = (expandPass xyEnv ^^ 1) ''${A}/${B}''"
    by simp
  with t have 2: "\<exists>x. expandVariables xyEnv ''${A}/${B}'' = Some x" by blast
  have 3: "expandVariables xyEnv ''${A}/${B}'' = Some (''x/y'', None)"
    using expandVariables_fixpoint [of xyEnv "''${A}/${B}''"] p by simp
  with t have 4: "expandPass xyEnv ''x/y'' = ''x/y''" by blast
  from 1 2 3 4 show ?thesis by blast
qed

text \<open>
  Claim C6 (convert never panics) fails on the code: for a settable slice field whose
  element type is not \<open>string\<close>, such as \<open>[]int\<close>, \<open>field.Set\<close> is given a \<open>[]string\<close> and
  panics, whatever the value. The rest of the claim holds: no panic for every other
  settable field (lemma \<open>convert_no_panic\<close>), and errors of the two shapes that the
  claim names (lemma \<open>convert_error_shape\<close>).
\<close>

theorem convert_panics_on_int_slice:
  "convert lib v \<lparr>Tag = ''PORTS'', Kind = Slice, IsDuration = False, TakesStrings = False,
                   CanSet = True, Val = VOther\<rparr> = Panic"
  by (simp add: convert_def)



text \<open>
  Claim C8 (an invalid target is refused) fails on the code for the nil argument:
  \<open>reflect.TypeOf(nil)\<close> is nil and the call of \<open>Kind\<close> on it panics, before any load
  and with the environment as it was. For every other argument that is not a pointer to
  a struct Bind does return the error at once (lemma \<open>Bind_invalid_target\<close>).
\<close>

theorem Bind_nil_panics:
  "Bind lib var fs cwd sched e NilInterface rPath =
     Some \<lparr>outcome = Panicked, env_after = e, log_after = [], target_after = NilInterface\<rparr>"
  by (simp add: Bind_def TypeOfKind_def)

theorem Bind_nil_panics_witness:
  "Bind noLib Plain (\<lambda>p. Lines [''K=new''] False) [] [] [''K'' \<mapsto> ''old''] NilInterface
       [''a''] =
     Some \<lparr>outcome = Panicked, env_after = [''K'' \<mapsto> ''old''], log_after = [],
           target_after = NilInterface\<rparr>"
  using Bind_nil_panics [where lib = noLib and var = Plain
      and fs = "\<lambda>p. Lines [''K=new''] False" and cwd = "[]" and sched = "[]"
      and e = "[''K'' \<mapsto> ''old'']" and rPath = "[''a'']"]
  by simp

text \<open>
  Claim C9 (the environment only grows). No step of a load, in either variant of load,
  removes a name from the process environment, and when a call of Bind ends every name
  that was set at the call is still set, with some value. With load.go every call of
  Bind has an outcome: a return, a panic or the deadlock of claim C1 (with the variant
  that expands, a call may also loop in expandVariables).
\<close>

theorem environment_only_grows:
  "(load_step var t w = Some (t', w') \<longrightarrow> dom (env w) \<subseteq> dom (env w')) \<and>
   (Bind lib var fs cwd sched e i rPath = Some r \<longrightarrow> dom e \<subseteq> dom (env_after r)) \<and>
   (Bind lib var fs cwd sched e i rPath = Some r \<longrightarrow> e name = Some old \<longrightarrow>
      (\<exists>new. env_after r name = Some new)) \<and>
   (\<exists>r. Bind lib Plain fs cwd sched e i rPath = Some r)"
proof (intro conjI impI)
  show "\<exists>r. Bind lib Plain fs cwd sched e i rPath = Some r"
    by (rule Bind_Plain_returns)
  show "dom (env w) \<subseteq> dom (env w')" if "load_step var t w = Some (t', w')"
    using that by (rule load_step_grows)
  show "dom e \<subseteq> dom (env_after r)" if "Bind lib var fs cwd sched e i rPath = Some r"
    using that by (rule Bind_grows)
  show "\<exists>new. env_after r name = Some new"
    if "Bind lib var fs cwd sched e i rPath = Some r" and "e name = Some old"
    using Bind_grows [OF that(1)] that(2) by blast
qed

theorem environment_only_grows_witness:
  "Bind noLib Plain (\<lambda>p. Lines [''K=new'', ''N = 1''] False) [] [0] [''K'' \<mapsto> ''old'']
       (PointerToStruct []) [''a''] =
     Some \<lparr>outcome = Returned None, env_after = [''K'' \<mapsto> ''new'', ''N'' \<mapsto> ''1''],
           log_after = [], target_after = PointerToStruct []\<rparr> \<and>
   dom [''K'' \<mapsto> ''old''] \<subseteq> dom [''K'' \<mapsto> ''new'', ''N'' \<mapsto> ''1''] \<and>
   (\<exists>new. [''K'' \<mapsto> ''new'', ''N'' \<mapsto> ''1''] ''K'' = Some new) \<and>
   load_step Plain (Scanning ''a'' [''N = 1''] False) (initWorld [''K'' \<mapsto> ''old'']) =
     Some (Scanning ''a'' [] False,
           \<lparr>env = [''K'' \<mapsto> ''old'', ''N'' \<mapsto> ''1''], loadedVars = [''N'' \<mapsto> True],
            Ce = [], logs = []\<rparr>) \<and>
   dom (env (initWorld [''K'' \<mapsto> ''old''])) \<subseteq> dom [''K'' \<mapsto> ''old'', ''N'' \<mapsto> ''1'']"
proof -
  let ?fs = "\<lambda>p::string. Lines [''K=new'', ''N = 1''] False"
  let ?r = "\<lparr>outcome = Returned None, env_after = [''K'' \<mapsto> ''new'', ''N'' \<mapsto> ''1''],
           log_after = [], target_after = PointerToStruct []\<rparr> :: (unit, unit) bind_result"
  let ?w0 = "initWorld [''K'' \<mapsto> ''old'']"
  let ?w1 = "\<lparr>env = [''K'' \<mapsto> ''old'', ''N'' \<mapsto> ''1''], loadedVars = [''N'' \<mapsto> True],
            Ce = [], logs = []\<rparr>"
  have b: "Bind noLib Plain ?fs [] [0] [''K'' \<mapsto> ''old''] (PointerToStruct []) [''a'']
             = Some ?r"
    by (simp add: Bind_eval parseLine_K_new parseLine_N_1 Setenv_K Setenv_N)
  have s: "load_step Plain (Scanning ''a'' [''N = 1''] False) ?w0
             = Some (Scanning ''a'' [] False, ?w1)"
    by (simp add: Bind_eval parseLine_N_1 Setenv_N)
  note t = environment_only_grows [where var = Plain and lib = noLib and fs = "?fs"
      and cwd = "[]" and sched = "[0]" and e = "[''K'' \<mapsto> ''old'']"
      and i = "PointerToStruct []" and rPath = "[''a'']" and r = "?r"
      and t = "Scanning ''a'' [''N = 1''] False" and w = "?w0"
      and t' = "Scanning ''a'' [] False" and w' = "?w1"
      and name = "''K''" and old = "''old''"]
  from t b have g: "dom [''K'' \<mapsto> ''old''] \<subseteq> dom [''K'' \<mapsto> ''new'', ''N'' \<mapsto> ''1'']"
    by simp
  from t b have k: "\<exists>new. [''K'' \<mapsto> ''new'', ''N'' \<mapsto> ''1''] ''K'' = Some new"
    by simp
  from t s have d: "dom (env ?w0) \<subseteq> dom [''K'' \<mapsto> ''old'', ''N'' \<mapsto> ''1'']"
    by simp
  from b g k s d show ?thesis by blast
qed

text \<open>
  Claim C10 (an empty value is an absent variable). The binder looks a variable up with
  \<open>os.Getenv\<close> and tests the result against the empty string. A field whose variable
  is set to the empty string, and a field with no tag, are therefore left as they are,
  with the warning "not found" and no call of convert; this holds for the fields of the
  struct after every call of Bind that returns, whatever its outcome.
\<close>

theorem empty_value_is_absent:
  "(Getenv e (Tag fld) = [] \<longrightarrow> bindField lib e fld = Some (fld, [WarnNotFound (Tag fld)])) \<and>
   (e name = Some [] \<longrightarrow> Getenv e name = []) \<and>
   Getenv e [] = [] \<and>
   (Bind lib var fs cwd sched e (PointerToStruct flds) rPath = Some r \<longrightarrow>
      (\<exists>flds'. target_after r = PointerToStruct flds' \<and> length flds' = length flds \<and>
         (\<forall>j<length flds. Getenv (env_after r) (Tag (flds ! j)) = [] \<longrightarrow>
            flds' ! j = flds ! j)))"
proof (intro conjI impI)
  show "bindField lib e fld = Some (fld, [WarnNotFound (Tag fld)])" if "Getenv e (Tag fld) = []"
    using that by (rule bindField_absent)
  show "Getenv e name = []" if "e name = Some []"
    using that by (rule Getenv_empty_value)
  show "Getenv e [] = []" by (rule Getenv_empty_name)
  show "\<exists>flds'. target_after r = PointerToStruct flds' \<and> length flds' = length flds \<and>
         (\<forall>j<length flds. Getenv (env_after r) (Tag (flds ! j)) = [] \<longrightarrow>
            flds' ! j = flds ! j)"
    if b: "Bind lib var fs cwd sched e (PointerToStruct flds) rPath = Some r"
  proof -
    from b obtain ts w where r: "r = afterWait lib (PointerToStruct flds) ts w"
      unfolding Bind_struct by (auto split: option.splits)
    show ?thesis
      unfolding r afterWait_env by (rule afterWait_target)
  qed
qed

theorem empty_value_is_absent_witness:
  "Bind noLib Plain (\<lambda>p. NotExist) [] [] [''E'' \<mapsto> [], ''P'' \<mapsto> ''42'']
       (PointerToStruct [emptyField, untaggedField, portField]) [] =
     Some \<lparr>outcome = Returned None,
           env_after = [''E'' \<mapsto> [], ''P'' \<mapsto> ''42''],
           log_after = [WarnFileNotFound [], WarnNotFound ''E'', WarnNotFound []],
           target_after =
             PointerToStruct [emptyField, untaggedField, portField\<lparr>Val := VInt 42\<rparr>]\<rparr> \<and>
   Getenv [''E'' \<mapsto> [], ''P'' \<mapsto> ''42''] (Tag emptyField) = [] \<and>
   Getenv [''E'' \<mapsto> [], ''P'' \<mapsto> ''42''] (Tag untaggedField) = [] \<and>
   bindField noLib [''E'' \<mapsto> [], ''P'' \<mapsto> ''42''] emptyField =
     Some (emptyField, [WarnNotFound ''E'']) \<and>
   (\<exists>flds'. PointerToStruct [emptyField, untaggedField, portField\<lparr>Val := VInt 42\<rparr>] =
        PointerToStruct flds' \<and> flds' ! 0 = emptyField \<and> flds' ! 1 = untaggedField)"
proof -
  let ?e = "[''E'' \<mapsto> [], ''P'' \<mapsto> ''42'']"
  let ?flds = "[emptyField, untaggedField, portField]"
  let ?r = "\<lparr>outcome = Returned None, env_after = ?e,
           log_after = [WarnFileNotFound [], WarnNotFound ''E'', WarnNotFound []],
           target_after =
             PointerToStruct [emptyField, untaggedField, portField\<lparr>Val := VInt 42\<rparr>]\<rparr>"
  have b: "Bind noLib Plain (\<lambda>p. NotExist) [] [] ?e (PointerToStruct ?flds) [] = Some ?r"
    by (simp add: Bind_eval bind_eval emptyField_def untaggedField_def portField_def
          ParseInt_42)
  have g1: "Getenv ?e (Tag emptyField) = []" by (simp add: Getenv_def emptyField_def)
  have g2: "Getenv ?e (Tag untaggedField) = []" by (simp add: Getenv_def untaggedField_def)
  note t = empty_value_is_absent [where e = "?e" and fld = emptyField and lib = noLib
      and var = Plain and fs = "\<lambda>p. NotExist" and cwd = "[]" and sched = "[]"
      and flds = "?flds" and rPath = "[]" and r = "?r"]
  from t g1 have bf: "bindField noLib ?e emptyField = Some (emptyField, [WarnNotFound ''E''])"
    by (simp add: emptyField_def)
  from t b obtain flds' where
    f: "target_after ?r = PointerToStruct flds'" and
    u: "\<forall>j<length ?flds. Getenv (env_after ?r) (Tag (?flds ! j)) = [] \<longrightarrow>
            flds' ! j = ?flds ! j"
    by blast
  from u g1 have u0: "flds' ! 0 = emptyField" by simp
  from u g2 have u1: "flds' ! 1 = untaggedField" by simp
  from f u0 u1 have ex: "\<exists>flds'. PointerToStruct [emptyField, untaggedField,
        portField\<lparr>Val := VInt 42\<rparr>] = PointerToStruct flds' \<and>
        flds' ! 0 = emptyField \<and> flds' ! 1 = untaggedField"
    by auto
  from b g1 g2 bf ex show ?thesis by blast
qed

end
